theory Spec2Isabelle
  imports Main "HOL-Library.Char_ord" "HOL-Library.List_Lexorder" "HOL-Library.Sublist"
begin

section \<open>The Quepy application API (quepy/quepyapp.py)\<close>

text \<open>
  The module builds a \<open>QuepyApp\<close> from an application's modules and answers questions
  with it. Its collaborators (the tagger, the rule classes, the serializers, the encoding
  normalizer) live in other modules; they enter the model as parameters. Exceptions are
  values of the type \<open>exn\<close>, where \<open>StopIterationExn\<close> is the exception \<open>StopIteration\<close>.
  What a call does besides returning (looking a serializer up, tagging, matching,
  serializing, logging) is returned as a list of events, in the order in which the code
  performs it. The calls of the logger, and the formatting of their arguments, are taken
  to return.
\<close>

subsection \<open>Exceptions, events, modules\<close>

datatype exn = TaggingError | TypeError | AttributeError | StopIterationExn | OtherError string

datatype level = DEBUG | WARNING | ERROR

datatype which_module = AppPrintout | DefaultPrintout

datatype event =
    Lookup which_module string
  | Tag string
  | Match nat
  | Serialize
  | LogMsg level

text \<open>
  A module is its dictionary, as an association list (the first binding of a name is the
  one in force). \<open>dir\<close> lists the names of a module sorted alphabetically, which for
  byte strings is the lexicographic order of the character codes; \<open>getattr\<close> raises
  \<open>AttributeError\<close> for a name the module does not have.
\<close>

type_synonym 'a module = "(string \<times> 'a) list"

definition dir :: "'a module \<Rightarrow> string list" where
  "dir m = sort (remdups (map fst m))"

definition getattr :: "'a module \<Rightarrow> string \<Rightarrow> exn + 'a" where
  "getattr m name = (case map_of m name of None \<Rightarrow> Inl AttributeError | Some v \<Rightarrow> Inr v)"

subsection \<open>Strings\<close>

text \<open>
  \<open>str.lower\<close> and \<open>str.upper\<close> of a byte string change the ASCII letters only.
  \<open>s.replace(old, new)\<close> with a pattern \<open>old\<close> of one character replaces every
  occurrence of that character.
\<close>

definition lower_char :: "char \<Rightarrow> char" where
  "lower_char c = (if CHR ''A'' \<le> c \<and> c \<le> CHR ''Z'' then char_of (of_char c + (32::nat)) else c)"

definition upper_char :: "char \<Rightarrow> char" where
  "upper_char c = (if CHR ''a'' \<le> c \<and> c \<le> CHR ''z'' then char_of (of_char c - (32::nat)) else c)"

definition lower :: "string \<Rightarrow> string" where
  "lower s = map lower_char s"

definition upper :: "string \<Rightarrow> string" where
  "upper s = map upper_char s"

definition replace :: "string \<Rightarrow> char \<Rightarrow> string \<Rightarrow> string" where
  "replace s old new = concat (map (\<lambda>c. if c = old then new else [c]) s)"

abbreviation squote :: char where "squote \<equiv> CHR 0x27"

abbreviation dquote :: char where "dquote \<equiv> CHR 0x22"

abbreviation backslash :: char where "backslash \<equiv> CHR 0x5C"

text \<open>
  In the source the replacement of the single quote is the literal \<open>"\'"\<close>, which in
  Python is the one-character string holding a single quote; the replacement of the double
  quote is \<open>"\\\""\<close>, a backslash followed by a double quote.
\<close>

definition question_sanitize :: "string \<Rightarrow> string" where
  "question_sanitize question =
     (let question = replace question squote [squote];
          question = replace question dquote [backslash, dquote]
      in question)"

subsection \<open>Rules and the application\<close>

text \<open>
  An instance of a rule class has a weight and the operation \<open>get_semantics\<close>, which
  returns a pair of an expression and user data, or raises. \<open>None\<close> as the expression
  stands for any value that Python treats as false.
\<close>

record ('w, 'e, 'u) regex_template =
  weight :: int
  get_semantics :: "'w list \<Rightarrow> exn + ('e option \<times> 'u option)"

text \<open>
  What a name of the rule module is bound to: something that is no class (for which
  \<open>issubclass\<close> raises \<open>TypeError\<close>), a class that does not derive from
  \<open>RegexTemplate\<close>, \<open>RegexTemplate\<close> itself, or a subclass of it, given by what calling
  it without arguments does.
\<close>

datatype ('w, 'e, 'u) element =
    NotAClass
  | OtherClass
  | RegexTemplate
  | Subclass "exn + ('w, 'e, 'u) regex_template"

text \<open>A value of the settings module: an instance of \<open>str\<close>, or anything else.\<close>

datatype 'a pyvalue = Str string | Other 'a

type_synonym 'e printout_func = "'e \<Rightarrow> exn + string"

text \<open>
  The names the module takes from its environment: the tagger that \<open>get_tagger()\<close>
  returns, the module \<open>quepy.printout\<close> (an attribute that is false in Python is
  \<open>None\<close>), and \<open>encoding_flexible_conversion\<close>.
\<close>

record ('w, 'e) env =
  get_tagger :: "string \<Rightarrow> exn + 'w list"
  quepy_printout :: "'e printout_func option module"
  encoding_flexible_conversion :: "string \<Rightarrow> string"

record ('w, 'e, 'u) QuepyApp =
  tagger :: "string \<Rightarrow> exn + 'w list"
  rules :: "('w, 'e, 'u) regex_template list"
  printout_module :: "'e printout_func option module option"

subsection \<open>Construction\<close>

text \<open>\<open>_save_settings_values\<close>: the loop over \<open>dir(self._settings_module)\<close>.\<close>

definition convert_if_str :: "(string \<Rightarrow> string) \<Rightarrow> 'a pyvalue \<Rightarrow> 'a pyvalue" where
  "convert_if_str conv v = (case v of Str s \<Rightarrow> Str (conv s) | Other x \<Rightarrow> Other x)"

fun save_settings_loop ::
  "(string \<Rightarrow> string) \<Rightarrow> 'a pyvalue module \<Rightarrow> string list \<Rightarrow> (string \<rightharpoonup> 'a pyvalue)
     \<Rightarrow> exn option \<times> (string \<rightharpoonup> 'a pyvalue)" where
  "save_settings_loop conv m [] settings = (None, settings)"
| "save_settings_loop conv m (key # keys) settings =
     (if upper key = key then
        (case getattr m key of
           Inl e \<Rightarrow> (Some e, settings)
         | Inr v \<Rightarrow> save_settings_loop conv m keys (settings(key \<mapsto> convert_if_str conv v)))
      else save_settings_loop conv m keys settings)"

definition save_settings_values ::
  "('w, 'e) env \<Rightarrow> 'a pyvalue module \<Rightarrow> (string \<rightharpoonup> 'a pyvalue)
     \<Rightarrow> exn option \<times> (string \<rightharpoonup> 'a pyvalue)" where
  "save_settings_values en settings_module settings =
     save_settings_loop (encoding_flexible_conversion en) settings_module (dir settings_module) settings"

text \<open>
  The body of the \<open>try\<close> in \<open>__init__\<close>: the test of the element and, for a subclass,
  its instantiation and the append to \<open>self.rules\<close>.
\<close>

fun try_append ::
  "('w, 'e, 'u) element \<Rightarrow> ('w, 'e, 'u) regex_template list
     \<Rightarrow> exn + ('w, 'e, 'u) regex_template list" where
  "try_append NotAClass acc = Inl TypeError"
| "try_append OtherClass acc = Inr acc"
| "try_append RegexTemplate acc = Inr acc"
| "try_append (Subclass (Inl e)) acc = Inl e"
| "try_append (Subclass (Inr r)) acc = Inr (acc @ [r])"

text \<open>The loop over \<open>dir(self._regex_module)\<close>, with its \<open>except TypeError: continue\<close>.\<close>

fun discover ::
  "('w, 'e, 'u) element module \<Rightarrow> string list \<Rightarrow> ('w, 'e, 'u) regex_template list
     \<Rightarrow> exn + ('w, 'e, 'u) regex_template list" where
  "discover m [] acc = Inr acc"
| "discover m (name # names) acc =
     (case getattr m name of
        Inl e \<Rightarrow> Inl e
      | Inr el \<Rightarrow>
          (case try_append el acc of
             Inl e \<Rightarrow> if e = TypeError then discover m names acc else Inl e
           | Inr acc' \<Rightarrow> discover m names acc'))"

text \<open>
  \<open>list.sort(key=..., reverse=True)\<close>: the list is reversed, sorted stably in ascending
  order of the key, and reversed again.
\<close>

definition sort_reverse :: "('a \<Rightarrow> 'k::linorder) \<Rightarrow> 'a list \<Rightarrow> 'a list" where
  "sort_reverse key xs = rev (sort_key key (rev xs))"

text \<open>
  \<open>QuepyApp.__init__\<close>. The shared settings are written before the rules are collected,
  so they are returned also when the construction raises.
\<close>

definition init ::
  "('w, 'e) env \<Rightarrow> ('w, 'e, 'u) element module \<Rightarrow> 'a pyvalue module
     \<Rightarrow> 'e printout_func option module option \<Rightarrow> (string \<rightharpoonup> 'a pyvalue)
     \<Rightarrow> (exn + ('w, 'e, 'u) QuepyApp) \<times> (string \<rightharpoonup> 'a pyvalue)" where
  "init en regex settings_module printout settings =
     (case save_settings_values en settings_module settings of
        (Some e, settings') \<Rightarrow> (Inl e, settings')
      | (None, settings') \<Rightarrow>
          (case discover regex (dir regex) [] of
             Inl e \<Rightarrow> (Inl e, settings')
           | Inr rs \<Rightarrow>
               (Inr \<lparr>tagger = get_tagger en, rules = sort_reverse weight rs,
                     printout_module = printout\<rparr>, settings')))"

subsection \<open>Generators\<close>

text \<open>
  A generator is a state and a step function: a step runs the body up to the next
  \<open>yield\<close>, to its end (\<open>StopIteration\<close>) or to an exception, and returns the new state
  and the events of that stretch of code.
\<close>

datatype 'a outcome = Yield 'a | StopIteration | Raise exn

text \<open>
  An exception that leaves the body of a generator. The source is Python 2, where a
  \<open>StopIteration\<close> that leaves the frame of a generator is the end of the iteration, as if
  the body had returned; any other exception is what the step raises.
\<close>

definition leaves_generator :: "exn \<Rightarrow> 'a outcome" where
  "leaves_generator e = (if e = StopIterationExn then StopIteration else Raise e)"

text \<open>
  \<open>_iter_compiled_forms\<close>: not started, suspended at the \<open>yield\<close> with the rule at the
  given index being the next one of the loop, or finished.
\<close>

datatype 'w forms_state = FormsStart string | FormsLoop "'w list" nat | FormsDone

fun match_loop ::
  "'w list \<Rightarrow> ('w, 'e, 'u) regex_template list \<Rightarrow> nat
     \<Rightarrow> ('e \<times> 'u option) outcome \<times> 'w forms_state \<times> event list" where
  "match_loop words [] i = (StopIteration, FormsDone, [])"
| "match_loop words (rule # rest) i =
     (case get_semantics rule words of
        Inl e \<Rightarrow> (leaves_generator e, FormsDone, [Match i])
      | Inr (expression, userdata) \<Rightarrow>
          (case expression of
             Some x \<Rightarrow> (Yield (x, userdata), FormsLoop words (Suc i), [Match i])
           | None \<Rightarrow>
               (case match_loop words rest (Suc i) of
                  (out, st, evs) \<Rightarrow> (out, st, Match i # evs))))"

definition next_forms ::
  "('w, 'e, 'u) QuepyApp \<Rightarrow> 'w forms_state
     \<Rightarrow> ('e \<times> 'u option) outcome \<times> 'w forms_state \<times> event list" where
  "next_forms app st =
     (case st of
        FormsStart question \<Rightarrow>
          (case tagger app question of
             Inl e \<Rightarrow>
               if e = TaggingError then (StopIteration, FormsDone, [Tag question, LogMsg WARNING])
               else (leaves_generator e, FormsDone, [Tag question])
           | Inr words \<Rightarrow>
               (case match_loop words (rules app) 0 of
                  (out, st', evs) \<Rightarrow> (out, st', Tag question # LogMsg DEBUG # evs)))
      | FormsLoop words i \<Rightarrow> match_loop words (drop i (rules app)) i
      | FormsDone \<Rightarrow> (StopIteration, FormsDone, []))"

text \<open>The lookup of the serializer at the start of \<open>get_queries\<close>.\<close>

definition find_printout ::
  "('w, 'e) env \<Rightarrow> ('w, 'e, 'u) QuepyApp \<Rightarrow> string \<Rightarrow> 'e printout_func option \<times> event list" where
  "find_printout en app query_lang =
     (let name = ''expression_to_'' @ lower query_lang;
          (printout_func, evs) =
             (case printout_module app of
                None \<Rightarrow> (None, [])
              | Some m \<Rightarrow>
                  (case getattr m name of
                     Inl e \<Rightarrow> (None, [Lookup AppPrintout name])
                   | Inr f \<Rightarrow> (f, [Lookup AppPrintout name])))
      in case printout_func of
           Some f \<Rightarrow> (Some f, evs)
         | None \<Rightarrow>
             (case getattr (quepy_printout en) name of
                Inl e \<Rightarrow> (None, evs @ [Lookup DefaultPrintout name])
              | Inr f \<Rightarrow> (f, evs @ [Lookup DefaultPrintout name])))"

text \<open>A result of the facade: target, query and user data.\<close>

type_synonym 'u triple = "string option \<times> string option \<times> 'u option"

text \<open>
  \<open>get_queries\<close>: not started, suspended at its \<open>yield\<close> with the serializer found and
  the state of the inner generator, or finished.
\<close>

datatype ('w, 'e) queries_state =
    QueriesStart string string
  | QueriesLoop "'e printout_func" "'w forms_state"
  | QueriesDone

definition queries_loop ::
  "('w, 'e, 'u) QuepyApp \<Rightarrow> 'e printout_func \<Rightarrow> 'w forms_state
     \<Rightarrow> 'u triple outcome \<times> ('w, 'e) queries_state \<times> event list" where
  "queries_loop app printout_func fs =
     (case next_forms app fs of
        (Yield (expression, userdata), fs', evs) \<Rightarrow>
          (case printout_func expression of
             Inl e \<Rightarrow> (leaves_generator e, QueriesDone, evs @ [Serialize])
           | Inr query \<Rightarrow>
               (Yield (None, Some query, userdata), QueriesLoop printout_func fs',
                evs @ [Serialize, LogMsg DEBUG, LogMsg DEBUG]))
      | (StopIteration, fs', evs) \<Rightarrow> (StopIteration, QueriesDone, evs)
      | (Raise e, fs', evs) \<Rightarrow> (leaves_generator e, QueriesDone, evs))"

definition next_queries ::
  "('w, 'e) env \<Rightarrow> ('w, 'e, 'u) QuepyApp \<Rightarrow> ('w, 'e) queries_state
     \<Rightarrow> 'u triple outcome \<times> ('w, 'e) queries_state \<times> event list" where
  "next_queries en app st =
     (case st of
        QueriesStart question query_lang \<Rightarrow>
          (case find_printout en app query_lang of
             (Some printout_func, evs) \<Rightarrow>
               (case queries_loop app printout_func
                       (FormsStart (encoding_flexible_conversion en question)) of
                  (out, st', evs') \<Rightarrow> (out, st', evs @ evs'))
           | (None, evs) \<Rightarrow> (StopIteration, QueriesDone, evs @ [LogMsg ERROR]))
      | QueriesLoop printout_func fs \<Rightarrow> queries_loop app printout_func fs
      | QueriesDone \<Rightarrow> (StopIteration, QueriesDone, []))"

text \<open>\<open>get_queries(question, query_lang)\<close> returns a generator that has not started.\<close>

definition get_queries :: "string \<Rightarrow> string \<Rightarrow> ('w, 'e) queries_state" where
  "get_queries question query_lang = QueriesStart question query_lang"

text \<open>
  \<open>get_query\<close>: the \<open>for\<close> loop asks the generator for one element and returns from
  inside the loop body.
\<close>

definition get_query ::
  "('w, 'e) env \<Rightarrow> ('w, 'e, 'u) QuepyApp \<Rightarrow> string \<Rightarrow> string \<Rightarrow> (exn + 'u triple) \<times> event list" where
  "get_query en app question query_lang =
     (let question = question_sanitize question in
      case next_queries en app (get_queries question query_lang) of
        (Yield t, st, evs) \<Rightarrow> (Inr t, evs)
      | (StopIteration, st, evs) \<Rightarrow> (Inr (None, None, None), evs)
      | (Raise e, st, evs) \<Rightarrow> (Inl e, evs))"

subsection \<open>Running a generator to its end\<close>

text \<open>Every element that a generator yields brings it closer to its end.\<close>

fun forms_size :: "nat \<Rightarrow> 'w forms_state \<Rightarrow> nat" where
  "forms_size n (FormsStart q) = Suc n"
| "forms_size n (FormsLoop words i) = n - i"
| "forms_size n FormsDone = 0"

fun queries_size :: "nat \<Rightarrow> ('w, 'e) queries_state \<Rightarrow> nat" where
  "queries_size n (QueriesStart q l) = Suc (Suc n)"
| "queries_size n (QueriesLoop f fs) = forms_size n fs"
| "queries_size n QueriesDone = 0"

text \<open>
  \<open>list(get_queries(question, query_lang))\<close>: the generator is asked for elements until it
  stops or raises. The result holds the elements, the exception if one ended the iteration,
  and the events.
\<close>

function collect ::
  "('w, 'e) env \<Rightarrow> ('w, 'e, 'u) QuepyApp \<Rightarrow> ('w, 'e) queries_state
     \<Rightarrow> 'u triple list \<times> exn option \<times> event list" where
  "collect en app st =
     (case next_queries en app st of
        (Yield t, st', evs) \<Rightarrow>
          (case collect en app st' of (ts, fin, evs') \<Rightarrow> (t # ts, fin, evs @ evs'))
      | (StopIteration, st', evs) \<Rightarrow> ([], None, evs)
      | (Raise e, st', evs) \<Rightarrow> ([], Some e, evs))"
  by pat_completeness auto

termination
proof (relation "measure (\<lambda>(en, app, st). queries_size (length (rules app)) st)")
  show "wf (measure (\<lambda>(en, app, st). queries_size (length (rules app)) st))" by simp
next
  fix en :: "('w, 'e) env" and app :: "('w, 'e, 'u) QuepyApp" and st x y x1 xa ya
  assume "(x, y) = next_queries en app st" and "x = Yield x1" and "(xa, ya) = y"
  then have step: "next_queries en app st = (Yield x1, xa, ya)" by simp
  have match_loop_yield: "\<exists>j. fs = FormsLoop words (Suc j) \<and> i \<le> j \<and> j < i + length rs"
    if "match_loop words rs i = (Yield m, fs, evs)"
    for words :: "'w list" and rs :: "('w, 'e, 'u) regex_template list" and i m fs evs
    using that
  proof (induction rs arbitrary: i evs)
    case Nil
    then show ?case by simp
  next
    case (Cons r rs)
    show ?case
    proof (cases "get_semantics r words")
      case (Inl e)
      with Cons.prems show ?thesis by (simp add: leaves_generator_def split: if_splits)
    next
      case (Inr p)
      obtain expression userdata where p: "p = (expression, userdata)" by (cases p)
      show ?thesis
      proof (cases expression)
        case None
        obtain out fs' evs' where "match_loop words rs (Suc i) = (out, fs', evs')"
          by (cases "match_loop words rs (Suc i)")
        with Cons.prems Inr p None have "match_loop words rs (Suc i) = (Yield m, fs, evs')"
          by simp
        from Cons.IH [OF this] show ?thesis by auto
      next
        case (Some a)
        with Cons.prems Inr p show ?thesis by auto
      qed
    qed
  qed
  have next_forms_yield:
    "forms_size (length (rules app)) fs' < forms_size (length (rules app)) fs"
    if "next_forms app fs = (Yield m, fs', evs)" for fs m fs' evs
    using that
    by (cases fs) (auto simp: next_forms_def leaves_generator_def
          split: sum.splits if_splits prod.splits dest!: match_loop_yield)
  have queries_loop_yield:
    "queries_size (length (rules app)) st' < forms_size (length (rules app)) fs"
    if "queries_loop app f fs = (Yield t, st', evs)" for f fs t st' evs
    using that
    by (auto simp: queries_loop_def leaves_generator_def
          split: prod.splits outcome.splits sum.splits if_splits dest!: next_forms_yield)
  from step have "queries_size (length (rules app)) xa < queries_size (length (rules app)) st"
    by (cases st) (auto simp: next_queries_def split: prod.splits option.splits
          dest!: queries_loop_yield)
  then show "((en, app, xa), en, app, st) \<in> measure (\<lambda>(en, app, st). queries_size (length (rules app)) st)"
    by simp
qed

declare collect.simps [simp del]

subsection \<open>Reading the events\<close>

text \<open>
  The questions given to the tagger, the indices (in \<open>self.rules\<close>) of the rules whose
  \<open>get_semantics\<close> was called, and the attribute lookups, each in the order of the calls.
\<close>

definition tagged :: "event list \<Rightarrow> string list" where
  "tagged evs = [q. Tag q \<leftarrow> evs]"

definition matched :: "event list \<Rightarrow> nat list" where
  "matched evs = [i. Match i \<leftarrow> evs]"

definition lookups :: "event list \<Rightarrow> (which_module \<times> string) list" where
  "lookups evs = [(m, name). Lookup m name \<leftarrow> evs]"

subsection \<open>The whole run of the loop\<close>

text \<open>
  For the proofs, the iteration to the end is described by one recursion over the rules
  that are left; \<open>collect_Start\<close> and \<open>collect_run_rules\<close> show that \<open>collect\<close> computes it.
  An exception that leaves the generator ends the run: as the exception of the run, or, for
  \<open>StopIteration\<close>, as its plain end.
\<close>

definition ends_with :: "exn \<Rightarrow> exn option" where
  "ends_with e = (if e = StopIterationExn then None else Some e)"

fun run_rules ::
  "'w list \<Rightarrow> 'e printout_func \<Rightarrow> ('w, 'e, 'u) regex_template list \<Rightarrow> nat
     \<Rightarrow> 'u triple list \<times> exn option \<times> event list" where
  "run_rules words pf [] i = ([], None, [])"
| "run_rules words pf (r # rs) i =
     (case get_semantics r words of
        Inl e \<Rightarrow> ([], ends_with e, [Match i])
      | Inr (expression, userdata) \<Rightarrow>
          (case expression of
             None \<Rightarrow>
               (case run_rules words pf rs (Suc i) of (ts, fin, evs) \<Rightarrow> (ts, fin, Match i # evs))
           | Some x \<Rightarrow>
               (case pf x of
                  Inl e \<Rightarrow> ([], ends_with e, [Match i, Serialize])
                | Inr query \<Rightarrow>
                    (case run_rules words pf rs (Suc i) of
                       (ts, fin, evs) \<Rightarrow>
                         ((None, Some query, userdata) # ts, fin,
                          Match i # Serialize # LogMsg DEBUG # LogMsg DEBUG # evs)))))"

text \<open>
  What \<open>collect\<close> does with the result of one step of the inner generator: it serializes
  a match and goes on, or ends.
\<close>

fun finish ::
  "'e printout_func \<Rightarrow> ('w, 'e) env \<Rightarrow> ('w, 'e, 'u) QuepyApp
     \<Rightarrow> ('e \<times> 'u option) outcome \<times> 'w forms_state \<times> event list
     \<Rightarrow> 'u triple list \<times> exn option \<times> event list" where
  "finish pf en app (Yield (x, u), fs', evs) =
     (case pf x of
        Inl e \<Rightarrow> ([], ends_with e, evs @ [Serialize])
      | Inr query \<Rightarrow>
          (case collect en app (QueriesLoop pf fs') of
             (ts, fin, evs') \<Rightarrow>
               ((None, Some query, u) # ts, fin, evs @ Serialize # LogMsg DEBUG # LogMsg DEBUG # evs')))"
| "finish pf en app (StopIteration, fs', evs) = ([], None, evs)"
| "finish pf en app (Raise e, fs', evs) = ([], ends_with e, evs)"

subsection \<open>What the discovery loop computes\<close>

text \<open>
  A name qualifies when it is bound to a subclass of \<open>RegexTemplate\<close>. A name contributes
  the instance that calling its class returns, if it is such a subclass and the call
  returns. An element is fatal when it is such a subclass and the call raises something
  other than \<open>TypeError\<close>.
\<close>

fun qualifying :: "('w, 'e, 'u) element \<Rightarrow> bool" where
  "qualifying (Subclass c) = True"
| "qualifying el = False"

fun instance_of :: "('w, 'e, 'u) element \<Rightarrow> ('w, 'e, 'u) regex_template list" where
  "instance_of (Subclass (Inr r)) = [r]"
| "instance_of el = []"

fun fatal :: "('w, 'e, 'u) element \<Rightarrow> exn option" where
  "fatal (Subclass (Inl e)) = (if e = TypeError then None else Some e)"
| "fatal el = None"

definition qualifying_names :: "('w, 'e, 'u) element module \<Rightarrow> string list" where
  "qualifying_names m =
     filter (\<lambda>name. case getattr m name of Inl e \<Rightarrow> False | Inr el \<Rightarrow> qualifying el) (dir m)"

definition named_instances ::
  "('w, 'e, 'u) element module \<Rightarrow> string list \<Rightarrow> (string \<times> ('w, 'e, 'u) regex_template) list" where
  "named_instances m names =
     concat (map (\<lambda>name. case getattr m name of
                             Inl e \<Rightarrow> []
                           | Inr el \<Rightarrow> map (Pair name) (instance_of el)) names)"

definition discovered ::
  "('w, 'e, 'u) element module \<Rightarrow> (string \<times> ('w, 'e, 'u) regex_template) list" where
  "discovered m = named_instances m (dir m)"

subsection \<open>Rules that pass and rules that fail\<close>

text \<open>
  A rule passes when its \<open>get_semantics\<close> returns and, if the expression is not empty,
  the serializer returns for it. A rule fails with \<open>e\<close> when its \<open>get_semantics\<close> raises
  \<open>e\<close>, or returns an expression on which the serializer raises \<open>e\<close>.
\<close>

definition passes :: "'w list \<Rightarrow> 'e printout_func \<Rightarrow> ('w, 'e, 'u) regex_template \<Rightarrow> bool" where
  "passes words pf r =
     (case get_semantics r words of
        Inl e \<Rightarrow> False
      | Inr (expression, userdata) \<Rightarrow>
          (case expression of
             None \<Rightarrow> True
           | Some x \<Rightarrow> (case pf x of Inl e \<Rightarrow> False | Inr query \<Rightarrow> True)))"

definition fails :: "'w list \<Rightarrow> 'e printout_func \<Rightarrow> ('w, 'e, 'u) regex_template \<Rightarrow> exn \<Rightarrow> bool" where
  "fails words pf r e =
     (case get_semantics r words of
        Inl e' \<Rightarrow> e' = e
      | Inr (expression, userdata) \<Rightarrow>
          (case expression of
             None \<Rightarrow> False
           | Some x \<Rightarrow> (case pf x of Inl e' \<Rightarrow> e' = e | Inr query \<Rightarrow> False)))"

subsection \<open>An example application\<close>

text \<open>
  A small application on which the theorems below are run: a tagger that returns the
  question as one token, refuses the empty question and breaks on \<open>?\<close>; a rule of weight 20
  for questions that start with \<open>Who\<close>, a rule of weight 5 whose expression is the text of
  the question, a rule of weight 5 that raises, and one that raises \<open>StopIteration\<close>; a
  serializer that breaks on the
  expression \<open>Why\<close>; a rule module with these rules among other names, and one with a
  class whose instantiation breaks.
\<close>

definition demo_tagger :: "string \<Rightarrow> exn + string list" where
  "demo_tagger q =
     (if q = [] then Inl TaggingError
      else if q = ''?'' then Inl (OtherError ''tagger'')
      else Inr [q])"

definition rule_who :: "(string, string, string) regex_template" where
  "rule_who = \<lparr>weight = 20,
     get_semantics = (\<lambda>words. if take 3 (concat words) = ''Who'' then Inr (Some ''E_high'', None)
                               else Inr (None, None))\<rparr>"

definition rule_echo :: "(string, string, string) regex_template" where
  "rule_echo = \<lparr>weight = 5, get_semantics = (\<lambda>words. Inr (Some (concat words), Some ''echo''))\<rparr>"

definition rule_bad :: "(string, string, string) regex_template" where
  "rule_bad = \<lparr>weight = 5, get_semantics = (\<lambda>words. Inl (OtherError ''rule''))\<rparr>"

definition rule_stop :: "(string, string, string) regex_template" where
  "rule_stop = \<lparr>weight = 5, get_semantics = (\<lambda>words. Inl StopIterationExn)\<rparr>"

definition to_sparql :: "string printout_func" where
  "to_sparql x = (if x = ''Why'' then Inl (OtherError ''printout'') else Inr (''SELECT '' @ x))"

definition demo_env :: "(string, string) env" where
  "demo_env = \<lparr>get_tagger = demo_tagger,
     quepy_printout = [(''expression_to_sparql'', Some to_sparql)],
     encoding_flexible_conversion = (\<lambda>s. s)\<rparr>"

definition demo_regex :: "(string, string, string) element module" where
  "demo_regex =
     [(''WhoRule'', Subclass (Inr rule_who)),
      (''EchoRule'', Subclass (Inr rule_echo)),
      (''RegexTemplate'', RegexTemplate),
      (''FailingRule'', Subclass (Inr rule_bad)),
      (''__name__'', NotAClass),
      (''Lemma'', OtherClass),
      (''NeedsArgument'', Subclass (Inl TypeError))]"

definition demo_settings :: "int pyvalue module" where
  "demo_settings = [(''_private'', Other 1), (''FOO'', Str ''bar'')]"

definition demo_app :: "(string, string, string) QuepyApp" where
  "demo_app = \<lparr>tagger = demo_tagger, rules = [rule_who, rule_echo, rule_bad], printout_module = None\<rparr>"

definition demo_broken :: "(string, string, string) element module" where
  "demo_broken =
     [(''WhoRule'', Subclass (Inr rule_who)),
      (''__doc__'', NotAClass),
      (''Broken'', Subclass (Inl (OtherError ''init''))),
      (''AnyRule'', Subclass (Inr rule_echo))]"

section \<open>Lemmas\<close>

subsection \<open>Exceptions that leave a generator\<close>

lemma leaves_generator_simps [simp]:
  "leaves_generator StopIterationExn = StopIteration"
  "e \<noteq> StopIterationExn \<Longrightarrow> leaves_generator e = Raise e"
  "leaves_generator e \<noteq> Yield y"
  "Yield y \<noteq> leaves_generator e"
  by (simp_all add: leaves_generator_def)

lemma ends_with_simps [simp]:
  "ends_with StopIterationExn = None"
  "e \<noteq> StopIterationExn \<Longrightarrow> ends_with e = Some e"
  by (simp_all add: ends_with_def)

subsection \<open>The generators, step by step and run to the end\<close>

lemma collect_Loop: "collect en app (QueriesLoop pf fs) = finish pf en app (next_forms app fs)"
proof -
  obtain out fs' evs where n: "next_forms app fs = (out, fs', evs)"
    by (cases "next_forms app fs")
  show ?thesis
  proof (cases out)
    case (Yield y)
    obtain x u where y: "y = (x, u)" by (cases y)
    show ?thesis
      by (subst collect.simps)
        (simp add: next_queries_def queries_loop_def leaves_generator_def ends_with_def n Yield y split: sum.splits prod.splits)
  next
    case StopIteration
    show ?thesis
      by (subst collect.simps) (simp add: next_queries_def queries_loop_def leaves_generator_def ends_with_def n StopIteration)
  next
    case (Raise e)
    show ?thesis
      by (subst collect.simps) (simp add: next_queries_def queries_loop_def leaves_generator_def ends_with_def n Raise)
  qed
qed

lemma finish_prefix:
  "finish pf en app (out, fs', pre @ evs) =
     (case finish pf en app (out, fs', evs) of (ts, fin, evs') \<Rightarrow> (ts, fin, pre @ evs'))"
proof (cases out)
  case (Yield y)
  obtain x u where "y = (x, u)" by (cases y)
  with Yield show ?thesis by (simp split: sum.splits prod.splits)
qed simp_all

lemma finish_Match:
  "finish pf en app (out, fs', Match i # evs) =
     (case finish pf en app (out, fs', evs) of (ts, fin, evs') \<Rightarrow> (ts, fin, Match i # evs'))"
  using finish_prefix [of pf en app out fs' "[Match i]" evs] by simp

lemma collect_Start_finish:
  assumes "find_printout en app query_lang = (Some pf, evs)"
    and "next_forms app (FormsStart (encoding_flexible_conversion en question)) = (out, fs', evs')"
  shows "collect en app (QueriesStart question query_lang) = finish pf en app (out, fs', evs @ evs')"
proof (cases out)
  case (Yield y)
  obtain x u where y: "y = (x, u)" by (cases y)
  show ?thesis
    by (subst collect.simps)
      (simp add: next_queries_def queries_loop_def leaves_generator_def ends_with_def assms Yield y split: sum.splits prod.splits)
next
  case StopIteration
  show ?thesis
    by (subst collect.simps) (simp add: next_queries_def queries_loop_def leaves_generator_def ends_with_def assms StopIteration)
next
  case (Raise e)
  show ?thesis
    by (subst collect.simps) (simp add: next_queries_def queries_loop_def leaves_generator_def ends_with_def assms Raise)
qed

lemma finish_leaves_generator [simp]:
  "finish pf en app (leaves_generator e, fs', evs) = ([], ends_with e, evs)"
  by (simp add: leaves_generator_def ends_with_def)

lemma collect_run_rules:
  "drop i (rules app) = rs \<Longrightarrow>
     collect en app (QueriesLoop pf (FormsLoop words i)) = run_rules words pf rs i"
proof (induction rs arbitrary: i)
  case Nil
  then show ?case by (simp add: collect_Loop next_forms_def)
next
  case (Cons r rs)
  from Cons.prems have d: "drop (Suc i) (rules app) = rs"
    by (metis drop_Suc list.sel(3) tl_drop)
  have IH: "collect en app (QueriesLoop pf (FormsLoop words (Suc i))) = run_rules words pf rs (Suc i)"
    by (rule Cons.IH [OF d])
  show ?case
  proof (cases "get_semantics r words")
    case (Inl e)
    then show ?thesis by (simp add: collect_Loop next_forms_def Cons.prems)
  next
    case (Inr p)
    obtain x u where p: "p = (x, u)" by (cases p)
    show ?thesis
    proof (cases x)
      case None
      obtain out fs' evs where m: "match_loop words rs (Suc i) = (out, fs', evs)"
        by (cases "match_loop words rs (Suc i)")
      have "collect en app (QueriesLoop pf (FormsLoop words i)) =
              finish pf en app (out, fs', Match i # evs)"
        by (simp add: collect_Loop next_forms_def Cons.prems Inr p None m)
      also have "\<dots> = (case finish pf en app (out, fs', evs) of
                          (ts, fin, evs') \<Rightarrow> (ts, fin, Match i # evs'))"
        by (rule finish_Match)
      also have "finish pf en app (out, fs', evs) =
                   collect en app (QueriesLoop pf (FormsLoop words (Suc i)))"
        by (simp add: collect_Loop next_forms_def d m)
      finally show ?thesis by (simp add: IH Inr p None)
    next
      case (Some a)
      show ?thesis
        by (simp add: collect_Loop [of en app pf "FormsLoop words i"] next_forms_def
              Cons.prems Inr p Some IH split: sum.splits prod.splits)
    qed
  qed
qed

lemma collect_Start:
  "collect en app (QueriesStart question query_lang) =
     (case find_printout en app query_lang of
        (None, evs) \<Rightarrow> ([], None, evs @ [LogMsg ERROR])
      | (Some pf, evs) \<Rightarrow>
          (case tagger app (encoding_flexible_conversion en question) of
             Inl e \<Rightarrow>
               if e = TaggingError
               then ([], None, evs @ [Tag (encoding_flexible_conversion en question), LogMsg WARNING])
               else ([], ends_with e, evs @ [Tag (encoding_flexible_conversion en question)])
           | Inr words \<Rightarrow>
               (case run_rules words pf (rules app) 0 of
                  (ts, fin, evs') \<Rightarrow>
                    (ts, fin, evs @ Tag (encoding_flexible_conversion en question) # LogMsg DEBUG # evs'))))"
proof -
  let ?q = "encoding_flexible_conversion en question"
  obtain pfo evs where f: "find_printout en app query_lang = (pfo, evs)"
    by (cases "find_printout en app query_lang")
  show ?thesis
  proof (cases pfo)
    case None
    then show ?thesis
      by (subst collect.simps) (simp add: next_queries_def f)
  next
    case (Some pf)
    show ?thesis
    proof (cases "tagger app ?q")
      case (Inl e)
      then show ?thesis
        by (subst collect.simps)
          (simp add: next_queries_def queries_loop_def next_forms_def leaves_generator_def
             ends_with_def f Some)
    next
      case (Inr words)
      obtain out fs' evs' where m: "match_loop words (rules app) 0 = (out, fs', evs')"
        by (cases "match_loop words (rules app) 0")
      have n: "next_forms app (FormsStart ?q) = (out, fs', [Tag ?q, LogMsg DEBUG] @ evs')"
        by (simp add: next_forms_def Inr m)
      have l: "collect en app (QueriesLoop pf (FormsLoop words 0)) = finish pf en app (out, fs', evs')"
        by (simp add: collect_Loop next_forms_def m)
      have "collect en app (QueriesStart question query_lang) =
              finish pf en app (out, fs', (evs @ [Tag ?q, LogMsg DEBUG]) @ evs')"
        using collect_Start_finish [OF f [unfolded Some] n] by simp
      also have "\<dots> = (case run_rules words pf (rules app) 0 of
                          (ts, fin, evs'') \<Rightarrow> (ts, fin, (evs @ [Tag ?q, LogMsg DEBUG]) @ evs''))"
        unfolding finish_prefix l [symmetric]
        by (simp add: collect_run_rules [of 0 app "rules app"])
      finally show ?thesis by (simp add: f Some Inr)
    qed
  qed
qed

lemma get_query_step:
  "get_query en app question query_lang =
     (case next_queries en app (QueriesStart (question_sanitize question) query_lang) of
        (Yield t, st, evs) \<Rightarrow> (Inr t, evs)
      | (StopIteration, st, evs) \<Rightarrow> (Inr (None, None, None), evs)
      | (Raise e, st, evs) \<Rightarrow> (Inl e, evs))"
  by (simp add: get_query_def get_queries_def)

lemma collect_first:
  "(case collect en app st of
      (t # ts, fin, evs) \<Rightarrow> Inr t
    | ([], None, evs) \<Rightarrow> Inr (None, None, None)
    | ([], Some e, evs) \<Rightarrow> Inl e) =
   (case next_queries en app st of
      (Yield t, st', evs) \<Rightarrow> Inr t
    | (StopIteration, st', evs) \<Rightarrow> Inr (None, None, None)
    | (Raise e, st', evs) \<Rightarrow> Inl e)"
  by (subst collect.simps) (simp split: prod.splits outcome.splits)

lemma get_query_result:
  assumes "find_printout en app query_lang = (Some pf, evs)"
    and "tagger app (encoding_flexible_conversion en (question_sanitize question)) = Inr words"
  shows "fst (get_query en app question query_lang) =
     (case fst (match_loop words (rules app) 0) of
        Yield (x, u) \<Rightarrow>
          (case pf x of
             Inl e \<Rightarrow> (case ends_with e of None \<Rightarrow> Inr (None, None, None) | Some e' \<Rightarrow> Inl e')
           | Inr query \<Rightarrow> Inr (None, Some query, u))
      | StopIteration \<Rightarrow> Inr (None, None, None)
      | Raise e \<Rightarrow> (case ends_with e of None \<Rightarrow> Inr (None, None, None) | Some e' \<Rightarrow> Inl e'))"
  by (simp add: get_query_step next_queries_def queries_loop_def next_forms_def
        leaves_generator_def ends_with_def assms
        split: prod.splits outcome.splits sum.splits)

subsection \<open>The events of a call\<close>

lemma matched_simps [simp]:
  "matched [] = []"
  "matched (Match i # evs) = i # matched evs"
  "matched (Tag q # evs) = matched evs"
  "matched (Lookup m n # evs) = matched evs"
  "matched (Serialize # evs) = matched evs"
  "matched (LogMsg l # evs) = matched evs"
  "matched (evs @ evs') = matched evs @ matched evs'"
  by (simp_all add: matched_def)

lemma tagged_simps [simp]:
  "tagged [] = []"
  "tagged (Match i # evs) = tagged evs"
  "tagged (Tag q # evs) = q # tagged evs"
  "tagged (Lookup m n # evs) = tagged evs"
  "tagged (Serialize # evs) = tagged evs"
  "tagged (LogMsg l # evs) = tagged evs"
  "tagged (evs @ evs') = tagged evs @ tagged evs'"
  by (simp_all add: tagged_def)

lemma lookups_simps [simp]:
  "lookups [] = []"
  "lookups (Match i # evs) = lookups evs"
  "lookups (Tag q # evs) = lookups evs"
  "lookups (Lookup m n # evs) = (m, n) # lookups evs"
  "lookups (Serialize # evs) = lookups evs"
  "lookups (LogMsg l # evs) = lookups evs"
  "lookups (evs @ evs') = lookups evs @ lookups evs'"
  by (simp_all add: lookups_def)

lemma find_printout_events:
  "find_printout en app query_lang = (pfo, evs) \<Longrightarrow> matched evs = [] \<and> tagged evs = []"
  by (auto simp: find_printout_def Let_def split: option.splits sum.splits)

lemma find_printout_lookups:
  "lookups (snd (find_printout en app query_lang)) \<noteq> [] \<and>
   tagged (snd (find_printout en app query_lang)) = [] \<and>
   matched (snd (find_printout en app query_lang)) = []"
  by (auto simp: find_printout_def Let_def split: option.splits sum.splits)

lemma match_loop_events:
  "match_loop words rs i = (out, st, evs) \<Longrightarrow> tagged evs = [] \<and> lookups evs = []"
proof (induction rs arbitrary: i out st evs)
  case Nil
  then show ?case by auto
next
  case (Cons r rs)
  obtain out' st' evs' where m: "match_loop words rs (Suc i) = (out', st', evs')"
    by (cases "match_loop words rs (Suc i)")
  from Cons.IH [OF m] Cons.prems m show ?case
    by (auto split: sum.splits option.splits prod.splits)
qed

lemma run_rules_events:
  "tagged (snd (snd (run_rules words pf rs i))) = [] \<and>
   lookups (snd (snd (run_rules words pf rs i))) = []"
proof (induction rs arbitrary: i)
  case Nil
  show ?case by simp
next
  case (Cons r rs)
  obtain ts fin evs where r: "run_rules words pf rs (Suc i) = (ts, fin, evs)"
    by (cases "run_rules words pf rs (Suc i)")
  with Cons [of "Suc i"] have "tagged evs = []" "lookups evs = []" by simp_all
  then show ?case by (simp add: r split: sum.splits option.splits prod.splits)
qed

lemma next_forms_Start_events:
  "next_forms app (FormsStart q) = (out, st, evs) \<Longrightarrow> tagged evs = [q] \<and> lookups evs = []"
  by (auto simp: next_forms_def split: sum.splits prod.splits if_splits dest: match_loop_events)

lemma match_loop_matched_le:
  "k < length rs \<Longrightarrow> get_semantics (rs ! k) words = Inr (Some x, u) \<Longrightarrow>
     \<forall>j \<in> set (matched (snd (snd (match_loop words rs i)))). j \<le> i + k"
proof (induction rs arbitrary: i k)
  case Nil
  then show ?case by simp
next
  case (Cons r rs)
  show ?case
  proof (cases "get_semantics r words")
    case (Inl e)
    then show ?thesis by simp
  next
    case (Inr p)
    obtain y v where p: "p = (y, v)" by (cases p)
    show ?thesis
    proof (cases y)
      case (Some a)
      with Inr p show ?thesis by simp
    next
      case None
      with Cons.prems Inr p obtain k' where k: "k = Suc k'" by (cases k) auto
      with Cons.prems have "k' < length rs" "get_semantics (rs ! k') words = Inr (Some x, u)"
        by simp_all
      from Cons.IH [OF this, of "Suc i"] show ?thesis
        by (auto simp: Inr p None k split: prod.splits)
    qed
  qed
qed

lemma match_loop_first:
  "k < length rs \<Longrightarrow> get_semantics (rs ! k) words = Inr (Some x, u) \<Longrightarrow>
   \<forall>j<k. \<exists>v. get_semantics (rs ! j) words = Inr (None, v) \<Longrightarrow>
     match_loop words rs i = (Yield (x, u), FormsLoop words (Suc (i + k)), map Match [i..<Suc (i + k)])"
proof (induction rs arbitrary: i k)
  case Nil
  then show ?case by simp
next
  case (Cons r rs)
  show ?case
  proof (cases k)
    case 0
    with Cons.prems show ?thesis by simp
  next
    case (Suc k')
    with Cons.prems obtain v where r: "get_semantics r words = Inr (None, v)" by fastforce
    from Cons.prems Suc have "k' < length rs" "get_semantics (rs ! k') words = Inr (Some x, u)"
      "\<forall>j<k'. \<exists>v. get_semantics (rs ! j) words = Inr (None, v)"
      by auto
    from Cons.IH [OF this, of "Suc i"] show ?thesis
      by (simp add: r Suc upt_conv_Cons)
  qed
qed

lemma get_query_events:
  "snd (get_query en app question query_lang) =
     (case find_printout en app query_lang of
        (None, evs) \<Rightarrow> evs @ [LogMsg ERROR]
      | (Some pf, evs) \<Rightarrow>
          evs @ snd (snd (queries_loop app pf
             (FormsStart (encoding_flexible_conversion en (question_sanitize question))))))"
  by (simp add: get_query_def get_queries_def next_queries_def
        split: prod.splits option.splits outcome.splits)

lemma queries_loop_matched:
  "matched (snd (snd (queries_loop app pf fs))) = matched (snd (snd (next_forms app fs)))"
  by (simp add: queries_loop_def split: prod.splits outcome.splits sum.splits)

lemma queries_loop_tagged:
  "tagged (snd (snd (queries_loop app pf fs))) = tagged (snd (snd (next_forms app fs)))"
  by (simp add: queries_loop_def split: prod.splits outcome.splits sum.splits)

lemma queries_loop_lookups:
  "lookups (snd (snd (queries_loop app pf fs))) = lookups (snd (snd (next_forms app fs)))"
  by (simp add: queries_loop_def split: prod.splits outcome.splits sum.splits)

lemma get_query_matched:
  assumes "tagger app (encoding_flexible_conversion en (question_sanitize question)) = Inr words"
  shows "matched (snd (get_query en app question query_lang)) =
     (case fst (find_printout en app query_lang) of
        None \<Rightarrow> []
      | Some pf \<Rightarrow> matched (snd (snd (match_loop words (rules app) 0))))"
proof -
  obtain pfo evs where f: "find_printout en app query_lang = (pfo, evs)"
    by (cases "find_printout en app query_lang")
  from find_printout_events [OF f] show ?thesis
    by (cases pfo)
      (simp_all add: get_query_events f queries_loop_matched next_forms_def assms split: prod.splits)
qed

lemma get_query_tagged:
  "tagged (snd (get_query en app question query_lang)) =
     (if fst (find_printout en app query_lang) = None then []
      else [encoding_flexible_conversion en (question_sanitize question)])"
proof -
  let ?q = "encoding_flexible_conversion en (question_sanitize question)"
  obtain pfo evs where f: "find_printout en app query_lang = (pfo, evs)"
    by (cases "find_printout en app query_lang")
  obtain out st evs' where n: "next_forms app (FormsStart ?q) = (out, st, evs')"
    by (cases "next_forms app (FormsStart ?q)")
  from find_printout_events [OF f] have t: "tagged evs = []" by simp
  show ?thesis
  proof (cases pfo)
    case None
    with f t show ?thesis by (simp add: get_query_events)
  next
    case (Some pf)
    with f t next_forms_Start_events [OF n] show ?thesis
      by (simp add: get_query_events queries_loop_tagged n)
  qed
qed

lemma get_query_lookups:
  "lookups (snd (get_query en app question query_lang)) =
     lookups (snd (find_printout en app query_lang))"
proof -
  let ?q = "encoding_flexible_conversion en (question_sanitize question)"
  obtain pfo evs where f: "find_printout en app query_lang = (pfo, evs)"
    by (cases "find_printout en app query_lang")
  obtain out st evs' where n: "next_forms app (FormsStart ?q) = (out, st, evs')"
    by (cases "next_forms app (FormsStart ?q)")
  show ?thesis
  proof (cases pfo)
    case None
    with f show ?thesis by (simp add: get_query_events)
  next
    case (Some pf)
    with f next_forms_Start_events [OF n] show ?thesis
      by (simp add: get_query_events queries_loop_lookups n)
  qed
qed

lemma collect_unresolved:
  "fst (find_printout en app query_lang) = None \<Longrightarrow>
     collect en app (get_queries question query_lang) =
       ([], None, snd (find_printout en app query_lang) @ [LogMsg ERROR])"
  by (cases "find_printout en app query_lang") (simp add: get_queries_def collect_Start)

lemma get_query_unresolved:
  "fst (find_printout en app query_lang) = None \<Longrightarrow>
     get_query en app question query_lang =
       (Inr (None, None, None), snd (find_printout en app query_lang) @ [LogMsg ERROR])"
  by (cases "find_printout en app query_lang") (simp add: get_query_step next_queries_def)

lemma collect_lookups:
  "lookups (snd (snd (collect en app (get_queries question query_lang)))) =
     lookups (snd (find_printout en app query_lang))"
proof -
  obtain pfo evs where f: "find_printout en app query_lang = (pfo, evs)"
    by (cases "find_printout en app query_lang")
  show ?thesis
  proof (cases pfo)
    case None
    with f show ?thesis by (simp add: get_queries_def collect_Start)
  next
    case (Some pf)
    show ?thesis
    proof (cases "tagger app (encoding_flexible_conversion en question)")
      case (Inl e)
      with f Some show ?thesis by (simp add: get_queries_def collect_Start)
    next
      case (Inr words)
      obtain ts fin evs' where r: "run_rules words pf (rules app) 0 = (ts, fin, evs')"
        by (cases "run_rules words pf (rules app) 0")
      with run_rules_events [of words pf "rules app" 0] have "lookups evs' = []" by simp
      with f Some Inr r show ?thesis by (simp add: get_queries_def collect_Start)
    qed
  qed
qed

lemma collect_tagged:
  "tagged (snd (snd (collect en app (get_queries question query_lang)))) =
     (if fst (find_printout en app query_lang) = None then []
      else [encoding_flexible_conversion en question])"
proof -
  obtain pfo evs where f: "find_printout en app query_lang = (pfo, evs)"
    by (cases "find_printout en app query_lang")
  from find_printout_events [OF f] have t: "tagged evs = []" by simp
  show ?thesis
  proof (cases pfo)
    case None
    with f t show ?thesis by (simp add: get_queries_def collect_Start)
  next
    case (Some pf)
    show ?thesis
    proof (cases "tagger app (encoding_flexible_conversion en question)")
      case (Inl e)
      with f t Some show ?thesis by (simp add: get_queries_def collect_Start)
    next
      case (Inr words)
      obtain ts fin evs' where r: "run_rules words pf (rules app) 0 = (ts, fin, evs')"
        by (cases "run_rules words pf (rules app) 0")
      with run_rules_events [of words pf "rules app" 0] have "tagged evs' = []" by simp
      with f t Some Inr r show ?thesis by (simp add: get_queries_def collect_Start)
    qed
  qed
qed

subsection \<open>Exceptions of the collaborators\<close>

lemma run_rules_fails:
  "k < length rs \<Longrightarrow> \<forall>j<k. passes words pf (rs ! j) \<Longrightarrow> fails words pf (rs ! k) e \<Longrightarrow>
     fst (snd (run_rules words pf rs i)) = ends_with e"
proof (induction rs arbitrary: i k)
  case Nil
  then show ?case by simp
next
  case (Cons r rs)
  show ?case
  proof (cases k)
    case 0
    with Cons.prems(3) show ?thesis
      by (auto simp: fails_def split: sum.splits option.splits prod.splits)
  next
    case (Suc k')
    with Cons.prems have "k' < length rs" "\<forall>j<k'. passes words pf (rs ! j)"
      "fails words pf (rs ! k') e"
      by auto
    from Cons.IH [OF this, of "Suc i"]
    have IH: "fst (snd (run_rules words pf rs (Suc i))) = ends_with e" .
    from Cons.prems(2) Suc have "passes words pf r" by auto
    with IH show ?thesis
      by (auto simp: passes_def split: sum.splits option.splits prod.splits)
  qed
qed

lemma match_loop_fails:
  "k < length rs \<Longrightarrow> \<forall>j<k. \<exists>v. get_semantics (rs ! j) words = Inr (None, v) \<Longrightarrow>
   fails words pf (rs ! k) e \<Longrightarrow>
     (case fst (match_loop words rs i) of
        Yield (x, u) \<Rightarrow> pf x = Inl e
      | StopIteration \<Rightarrow> e = StopIterationExn
      | Raise e' \<Rightarrow> e' = e \<and> e \<noteq> StopIterationExn)"
proof (induction rs arbitrary: i k)
  case Nil
  then show ?case by simp
next
  case (Cons r rs)
  show ?case
  proof (cases k)
    case 0
    with Cons.prems(3) have f: "fails words pf r e" by simp
    show ?thesis
    proof (cases "get_semantics r words")
      case (Inl e')
      with f show ?thesis by (simp add: fails_def leaves_generator_def)
    next
      case (Inr p)
      obtain y v where p: "p = (y, v)" by (cases p)
      show ?thesis
      proof (cases y)
        case None
        with f Inr p show ?thesis by (simp add: fails_def)
      next
        case (Some x)
        with f Inr p show ?thesis by (cases "pf x") (simp_all add: fails_def)
      qed
    qed
  next
    case (Suc k')
    with Cons.prems have "k' < length rs" "\<forall>j<k'. \<exists>v. get_semantics (rs ! j) words = Inr (None, v)"
      "fails words pf (rs ! k') e"
      by auto
    from Cons.IH [OF this, of "Suc i"] have IH: "case fst (match_loop words rs (Suc i)) of
        Yield (x, u) \<Rightarrow> pf x = Inl e | StopIteration \<Rightarrow> e = StopIterationExn
      | Raise e' \<Rightarrow> e' = e \<and> e \<noteq> StopIterationExn" .
    from Cons.prems(2) Suc obtain v where r: "get_semantics r words = Inr (None, v)" by fastforce
    obtain out st evs where m: "match_loop words rs (Suc i) = (out, st, evs)"
      by (cases "match_loop words rs (Suc i)")
    from IH have "case out of
        Yield (x, u) \<Rightarrow> pf x = Inl e | StopIteration \<Rightarrow> e = StopIterationExn
      | Raise e' \<Rightarrow> e' = e \<and> e \<noteq> StopIterationExn"
      unfolding m fst_conv .
    then show ?thesis
      unfolding match_loop.simps r m by simp
  qed
qed

lemma get_query_tagger_raises:
  assumes "find_printout en app query_lang = (Some pf, evs)"
    and "tagger app (encoding_flexible_conversion en (question_sanitize question)) = Inl e"
    and "e \<noteq> TaggingError"
  shows "fst (get_query en app question query_lang) =
           (case ends_with e of None \<Rightarrow> Inr (None, None, None) | Some e' \<Rightarrow> Inl e')"
  by (simp add: get_query_step next_queries_def queries_loop_def next_forms_def
        leaves_generator_def ends_with_def assms)

lemma collect_tagger_raises:
  assumes "find_printout en app query_lang = (Some pf, evs)"
    and "tagger app (encoding_flexible_conversion en question) = Inl e"
    and "e \<noteq> TaggingError"
  shows "fst (snd (collect en app (get_queries question query_lang))) = ends_with e"
  by (simp add: get_queries_def collect_Start assms)

lemma collect_rule_fails:
  assumes "find_printout en app query_lang = (Some pf, evs)"
    and "tagger app (encoding_flexible_conversion en question) = Inr words"
    and "k < length (rules app)"
    and "\<forall>j<k. passes words pf (rules app ! j)"
    and "fails words pf (rules app ! k) e"
  shows "fst (snd (collect en app (get_queries question query_lang))) = ends_with e"
proof -
  obtain ts fin evs' where r: "run_rules words pf (rules app) 0 = (ts, fin, evs')"
    by (cases "run_rules words pf (rules app) 0")
  with run_rules_fails [OF assms(3,4,5), of 0] have "fin = ends_with e" by simp
  with r show ?thesis by (simp add: get_queries_def collect_Start assms(1,2))
qed

lemma get_query_rule_fails:
  assumes "find_printout en app query_lang = (Some pf, evs)"
    and "tagger app (encoding_flexible_conversion en (question_sanitize question)) = Inr words"
    and "k < length (rules app)"
    and "\<forall>j<k. \<exists>v. get_semantics (rules app ! j) words = Inr (None, v)"
    and "fails words pf (rules app ! k) e"
  shows "fst (get_query en app question query_lang) =
           (case ends_with e of None \<Rightarrow> Inr (None, None, None) | Some e' \<Rightarrow> Inl e')"
proof -
  obtain out st evs' where m: "match_loop words (rules app) 0 = (out, st, evs')"
    by (cases "match_loop words (rules app) 0")
  from match_loop_fails [OF assms(3,4,5), of 0] have
    c: "case out of Yield (x, u) \<Rightarrow> pf x = Inl e | StopIteration \<Rightarrow> e = StopIterationExn
        | Raise e' \<Rightarrow> e' = e \<and> e \<noteq> StopIterationExn"
    unfolding m fst_conv .
  show ?thesis
  proof (cases out)
    case (Yield y)
    obtain x u where "y = (x, u)" by (cases y)
    with c Yield show ?thesis by (simp add: get_query_result [OF assms(1,2)] m)
  next
    case StopIteration
    with c show ?thesis by (simp add: get_query_result [OF assms(1,2)] m)
  next
    case (Raise e')
    with c show ?thesis by (simp add: get_query_result [OF assms(1,2)] m)
  qed
qed

subsection \<open>The order of the elements\<close>

lemma run_rules_ranks:
  "\<exists>ranks. sorted_wrt (<) ranks \<and> (\<forall>j \<in> set ranks. i \<le> j) \<and>
     list_all2 (\<lambda>j t. i \<le> j \<and> j < i + length rs \<and>
                  (\<exists>x u q. get_semantics (rs ! (j - i)) words = Inr (Some x, u) \<and>
                     pf x = Inr q \<and> t = (None, Some q, u)))
       ranks (fst (run_rules words pf rs i))"
proof (induction rs arbitrary: i)
  case Nil
  show ?case by simp
next
  case (Cons r rs)
  let ?P = "\<lambda>i rs j t. i \<le> j \<and> j < i + length rs \<and>
                  (\<exists>x u q. get_semantics (rs ! (j - i)) words = Inr (Some x, u) \<and>
                     pf x = Inr q \<and> t = (None :: string option, Some q, u))"
  obtain ts fin evs where run: "run_rules words pf rs (Suc i) = (ts, fin, evs)"
    by (cases "run_rules words pf rs (Suc i)")
  from Cons [of "Suc i"] run obtain ranks where
    ranks: "sorted_wrt (<) ranks" "\<forall>j \<in> set ranks. Suc i \<le> j"
      "list_all2 (?P (Suc i) rs) ranks ts"
    by auto
  have shift: "?P i (r # rs) j t" if "?P (Suc i) rs j t" for j t
  proof -
    from that have "j - i = Suc (j - Suc i)" by arith
    with that show ?thesis by auto
  qed
  from ranks(3) have later: "list_all2 (?P i (r # rs)) ranks ts"
    by (rule list_all2_mono) (rule shift)
  from ranks(2) have ge: "\<forall>j \<in> set ranks. i \<le> j" by auto
  have nil: "\<exists>ranks. sorted_wrt (<) ranks \<and> (\<forall>j \<in> set ranks. i \<le> j) \<and>
                list_all2 (?P i (r # rs)) ranks []"
    by (rule exI [of _ "[]"]) simp
  have same: "\<exists>ranks. sorted_wrt (<) ranks \<and> (\<forall>j \<in> set ranks. i \<le> j) \<and>
                list_all2 (?P i (r # rs)) ranks ts"
    using ranks(1) ge later by blast
  have cons: "\<exists>ranks. sorted_wrt (<) ranks \<and> (\<forall>j \<in> set ranks. i \<le> j) \<and>
                list_all2 (?P i (r # rs)) ranks ((None, Some q, u) # ts)"
    if "get_semantics r words = Inr (Some x, u)" "pf x = Inr q" for x u q
  proof (rule exI [of _ "i # ranks"], intro conjI)
    from ranks(1,2) show "sorted_wrt (<) (i # ranks)" by auto
    from ge show "\<forall>j \<in> set (i # ranks). i \<le> j" by simp
    from that later show "list_all2 (?P i (r # rs)) (i # ranks) ((None, Some q, u) # ts)"
      by simp
  qed
  show ?case
  proof (cases "get_semantics r words")
    case (Inl e)
    with nil show ?thesis by simp
  next
    case (Inr p)
    obtain y u where p: "p = (y, u)" by (cases p)
    show ?thesis
    proof (cases y)
      case None
      with same Inr p run show ?thesis by simp
    next
      case (Some x)
      show ?thesis
      proof (cases "pf x")
        case (Inl e)
        with nil Inr p Some show ?thesis by simp
      next
        case Inr': (Inr q)
        from cons [of x u q] Inr p Some Inr' run show ?thesis by simp
      qed
    qed
  qed
qed

lemma collect_ranks:
  assumes "find_printout en app query_lang = (Some pf, evs)"
    and "tagger app (encoding_flexible_conversion en question) = Inr words"
  shows "\<exists>ranks. sorted_wrt (<) ranks \<and>
     list_all2 (\<lambda>j t. j < length (rules app) \<and>
                  (\<exists>x u q. get_semantics (rules app ! j) words = Inr (Some x, u) \<and>
                     pf x = Inr q \<and> t = (None, Some q, u)))
       ranks (fst (collect en app (get_queries question query_lang)))"
proof -
  have "fst (collect en app (get_queries question query_lang)) =
          fst (run_rules words pf (rules app) 0)"
    by (simp add: get_queries_def collect_Start assms split: prod.splits)
  with run_rules_ranks [of 0 "rules app" words pf] show ?thesis by auto
qed

subsection \<open>Strings\<close>

lemma replace_no_occurrence: "old \<notin> set s \<Longrightarrow> replace s old new = s"
  by (induction s) (auto simp: replace_def)

lemma replace_same: "replace s c [c] = s"
  by (induction s) (simp_all add: replace_def)

lemma replace_append: "replace (a @ b) old new = replace a old new @ replace b old new"
  by (simp add: replace_def)

lemma question_sanitize_replace: "question_sanitize s = replace s dquote [backslash, dquote]"
  by (simp add: question_sanitize_def replace_same)

lemma upper_char_fixed: "upper_char c = c \<longleftrightarrow> \<not> (CHR ''a'' \<le> c \<and> c \<le> CHR ''z'')"
proof (cases "CHR ''a'' \<le> c \<and> c \<le> CHR ''z''")
  case False
  then have "upper_char c = c" unfolding upper_char_def by (simp only: simp_thms if_False)
  with False show ?thesis by blast
next
  case True
  then have r: "97 \<le> (of_char c :: nat)" "(of_char c :: nat) \<le> 122"
    by (simp_all add: less_eq_char_def)
  from True have "upper_char c = char_of (of_char c - (32::nat))"
    unfolding upper_char_def by (simp only: simp_thms if_True)
  then have "(of_char (upper_char c) :: nat) = of_char c - 32"
    using r by simp
  with r have "(of_char (upper_char c) :: nat) \<noteq> of_char c" by simp
  then have "upper_char c \<noteq> c" by auto
  with True show ?thesis by blast
qed

lemma upper_fixed: "upper key = key \<longleftrightarrow> (\<forall>c \<in> set key. \<not> (CHR ''a'' \<le> c \<and> c \<le> CHR ''z''))"
  unfolding upper_def by (induction key) (simp_all add: upper_char_fixed)

subsection \<open>Modules and sorting\<close>

lemma set_dir: "set (dir m) = fst ` set m"
  by (simp add: dir_def)


lemma getattr_dir: "name \<in> set (dir m) \<Longrightarrow> \<exists>v. getattr m name = Inr v \<and> map_of m name = Some v"
proof -
  assume "name \<in> set (dir m)"
  then have "map_of m name \<noteq> None" by (simp add: set_dir map_of_eq_None_iff)
  then show ?thesis by (auto simp: getattr_def)
qed

lemma getattr_not_dir: "name \<notin> set (dir m) \<Longrightarrow> map_of m name = None"
  by (simp add: set_dir map_of_eq_None_iff)

lemma sort_reverse_length: "length (sort_reverse key xs) = length xs"
  by (simp add: sort_reverse_def)

lemma sort_reverse_descending: "sorted_wrt (\<lambda>x y. key x \<ge> key y) (sort_reverse key xs)"
proof -
  have "sorted_wrt (\<lambda>x y. key x \<le> key y) (sort_key key (rev xs))"
    using sorted_sort_key [of key "rev xs"] by (simp add: sorted_map)
  then show ?thesis by (simp add: sort_reverse_def sorted_wrt_rev)
qed

lemma sort_reverse_stable:
  "filter (\<lambda>x. key x = k) (sort_reverse key xs) = filter (\<lambda>x. key x = k) xs"
proof -
  have "filter (\<lambda>x. key x = k) (sort_reverse key xs) =
          rev (filter (\<lambda>x. key x = k) (sort_key key (rev xs)))"
    by (simp add: sort_reverse_def rev_filter)
  also have "\<dots> = rev (filter (\<lambda>x. key x = k) (rev xs))"
    by (simp only: sort_key_stable)
  also have "\<dots> = filter (\<lambda>x. key x = k) xs"
    by (simp add: rev_filter)
  finally show ?thesis .
qed




subsection \<open>The settings loop\<close>

lemma save_settings_loop_result:
  "set keys \<subseteq> set (dir m) \<Longrightarrow>
     save_settings_loop conv m keys settings =
       (None, \<lambda>key. if key \<in> set keys \<and> upper key = key
                     then map_option (convert_if_str conv) (map_of m key) else settings key)"
proof (induction keys arbitrary: settings)
  case Nil
  show ?case by simp
next
  case (Cons k keys)
  then have "k \<in> set (dir m)" and sub: "set keys \<subseteq> set (dir m)" by simp_all
  from getattr_dir [OF this(1)] obtain v where v: "getattr m k = Inr v" "map_of m k = Some v"
    by blast
  show ?case
  proof (cases "upper k = k")
    case True
    show ?thesis
      by (simp add: True v Cons.IH [OF sub] fun_eq_iff)
  next
    case False
    show ?thesis
      by (auto simp: False Cons.IH [OF sub] fun_eq_iff)
  qed
qed

lemma init_settings:
  "snd (init en regex settings_module printout settings) =
     snd (save_settings_values en settings_module settings)"
  by (simp add: init_def split: prod.splits option.splits sum.splits)

lemma save_settings_values_None: "fst (save_settings_values en settings_module settings) = None"
  unfolding save_settings_values_def by (simp add: save_settings_loop_result)

subsection \<open>The discovery loop\<close>

lemma named_instances_simps [simp]:
  "named_instances m [] = []"
  "named_instances m (name # names) =
     (case getattr m name of Inl e \<Rightarrow> [] | Inr el \<Rightarrow> map (Pair name) (instance_of el))
       @ named_instances m names"
  by (simp_all add: named_instances_def)

lemma discover_step:
  assumes "getattr m name = Inr el"
  shows "discover m (name # names) acc =
     (case fatal el of Some e \<Rightarrow> Inl e | None \<Rightarrow> discover m names (acc @ instance_of el))"
proof (cases el)
  case (Subclass c)
  with assms show ?thesis by (cases c) simp_all
qed (simp_all add: assms)

lemma discover_no_fatal:
  "set names \<subseteq> set (dir m) \<Longrightarrow>
   \<forall>n \<in> set names. \<forall>el. getattr m n = Inr el \<longrightarrow> fatal el = None \<Longrightarrow>
     discover m names acc = Inr (acc @ map snd (named_instances m names))"
proof (induction names arbitrary: acc)
  case Nil
  show ?case by simp
next
  case (Cons n names)
  from Cons.prems(1) have "n \<in> set (dir m)" by simp
  from getattr_dir [OF this] obtain el where el: "getattr m n = Inr el" by blast
  with Cons.prems(2) have f: "fatal el = None" by simp
  from Cons.prems have "discover m names (acc @ instance_of el) =
      Inr ((acc @ instance_of el) @ map snd (named_instances m names))"
    by (intro Cons.IH) simp_all
  then show ?case
    by (simp add: discover_step [OF el] f el comp_def del: discover.simps)
qed

lemma discover_fatal:
  "set ns1 \<subseteq> set (dir m) \<Longrightarrow>
   \<forall>n \<in> set ns1. \<forall>el. getattr m n = Inr el \<longrightarrow> fatal el = None \<Longrightarrow>
   getattr m name = Inr el \<Longrightarrow> fatal el = Some e \<Longrightarrow>
     discover m (ns1 @ name # ns2) acc = Inl e"
proof (induction ns1 arbitrary: acc)
  case Nil
  then show ?case by (simp add: discover_step del: discover.simps)
next
  case (Cons n ns1)
  from Cons.prems(1) have "n \<in> set (dir m)" by simp
  from getattr_dir [OF this] obtain el' where el': "getattr m n = Inr el'" by blast
  with Cons.prems(2) have f: "fatal el' = None" by simp
  from Cons.prems have "discover m (ns1 @ name # ns2) (acc @ instance_of el') = Inl e"
    by (intro Cons.IH) simp_all
  then show ?case
    by (simp add: discover_step [OF el'] f del: discover.simps)
qed

lemma discover_Inr:
  "set names \<subseteq> set (dir m) \<Longrightarrow> discover m names acc = Inr rs \<Longrightarrow>
     \<forall>n \<in> set names. \<forall>el. getattr m n = Inr el \<longrightarrow> fatal el = None"
proof (induction names arbitrary: acc)
  case Nil
  show ?case by simp
next
  case (Cons n names)
  from Cons.prems(1) have "n \<in> set (dir m)" by simp
  from getattr_dir [OF this] obtain el where el: "getattr m n = Inr el" by blast
  from Cons.prems(2) have f: "fatal el = None"
    by (cases "fatal el") (simp_all add: discover_step [OF el] del: discover.simps)
  with Cons.prems(2) have "discover m names (acc @ instance_of el) = Inr rs"
    by (simp add: discover_step [OF el] del: discover.simps)
  with Cons.prems(1) have "\<forall>n \<in> set names. \<forall>el. getattr m n = Inr el \<longrightarrow> fatal el = None"
    by (intro Cons.IH) simp_all
  with el f show ?case by auto
qed

lemma discover_some_fatal:
  "set names \<subseteq> set (dir m) \<Longrightarrow>
   \<exists>n \<in> set names. \<exists>el e. getattr m n = Inr el \<and> fatal el = Some e \<Longrightarrow>
     \<exists>e. discover m names acc = Inl e"
proof (induction names arbitrary: acc)
  case Nil
  then show ?case by simp
next
  case (Cons n names)
  from Cons.prems(1) have "n \<in> set (dir m)" by simp
  from getattr_dir [OF this] obtain el where el: "getattr m n = Inr el" by blast
  show ?case
  proof (cases "fatal el")
    case (Some e)
    then show ?thesis by (simp add: discover_step [OF el] del: discover.simps)
  next
    case None
    with Cons.prems(2) el have "\<exists>n \<in> set names. \<exists>el e. getattr m n = Inr el \<and> fatal el = Some e"
      by auto
    with Cons.prems(1) have "\<exists>e. discover m names (acc @ instance_of el) = Inl e"
      by (intro Cons.IH) simp_all
    with None show ?thesis by (simp add: discover_step [OF el] del: discover.simps)
  qed
qed

lemma init_discover:
  "fst (init en regex settings_module printout settings) =
     (case discover regex (dir regex) [] of
        Inl e \<Rightarrow> Inl e
      | Inr rs \<Rightarrow> Inr \<lparr>tagger = get_tagger en, rules = sort_reverse weight rs,
                         printout_module = printout\<rparr>)"
proof -
  obtain sh where "save_settings_values en settings_module settings = (None, sh)"
    using save_settings_values_None [of en settings_module settings]
    by (cases "save_settings_values en settings_module settings") simp
  then show ?thesis by (simp add: init_def split: sum.splits)
qed

lemma init_Inr:
  assumes "fst (init en regex settings_module printout settings) = Inr app"
  shows "(\<forall>n \<in> set (dir regex). \<forall>el. getattr regex n = Inr el \<longrightarrow> fatal el = None) \<and>
         app = \<lparr>tagger = get_tagger en,
                 rules = sort_reverse weight (map snd (discovered regex)),
                 printout_module = printout\<rparr>"
proof -
  from assms obtain rs where d: "discover regex (dir regex) [] = Inr rs"
    by (auto simp: init_discover split: sum.splits)
  from discover_Inr [OF _ d] have
    n: "\<forall>n \<in> set (dir regex). \<forall>el. getattr regex n = Inr el \<longrightarrow> fatal el = None"
    by simp
  from discover_no_fatal [OF _ n, of "[]"] d have "rs = map snd (discovered regex)"
    by (simp add: discovered_def)
  with assms d n show ?thesis by (simp add: init_discover)
qed

lemma length_named_instances:
  "\<forall>n \<in> set names. \<forall>el. getattr m n = Inr el \<longrightarrow> fatal el = None \<Longrightarrow>
     length (named_instances m names) =
       length (filter (\<lambda>name. getattr m name \<noteq> Inr (Subclass (Inl TypeError)))
                 (filter (\<lambda>name. case getattr m name of Inl e \<Rightarrow> False | Inr el \<Rightarrow> qualifying el)
                    names))"
proof (induction names)
  case Nil
  show ?case by simp
next
  case (Cons n names)
  then have IH: "length (named_instances m names) =
       length (filter (\<lambda>name. getattr m name \<noteq> Inr (Subclass (Inl TypeError)))
                 (filter (\<lambda>name. case getattr m name of Inl e \<Rightarrow> False | Inr el \<Rightarrow> qualifying el)
                    names))"
    by simp
  show ?case
  proof (cases "getattr m n")
    case (Inl e)
    with IH show ?thesis by simp
  next
    case (Inr el)
    with Cons.prems have f: "fatal el = None" by simp
    show ?thesis
    proof (cases el)
      case (Subclass c)
      with f IH Inr show ?thesis by (cases c) (simp_all split: if_splits)
    qed (simp_all add: IH Inr)
  qed
qed

lemma fatal_None_iff: "fatal el = None \<longleftrightarrow> (\<forall>e. el = Subclass (Inl e) \<longrightarrow> e = TypeError)"
proof (cases el)
  case (Subclass c)
  then show ?thesis by (cases c) auto
qed simp_all

lemma fatal_Some_iff: "fatal el = Some e \<longleftrightarrow> el = Subclass (Inl e) \<and> e \<noteq> TypeError"
proof (cases el)
  case (Subclass c)
  then show ?thesis by (cases c) auto
qed simp_all

lemma names_of_named_instances:
  "map fst (named_instances m names) =
     filter (\<lambda>name. \<exists>r. getattr m name = Inr (Subclass (Inr r))) names"
proof (induction names)
  case Nil
  show ?case by simp
next
  case (Cons n names)
  show ?case
  proof (cases "getattr m n")
    case (Inl e)
    with Cons show ?thesis by simp
  next
    case (Inr el)
    show ?thesis
    proof (cases el)
      case (Subclass c)
      with Cons Inr show ?thesis by (cases c) simp_all
    qed (simp_all add: Cons Inr)
  qed
qed

subsection \<open>The example application\<close>

lemma weights_demo [simp]:
  "weight rule_who = 20" "weight rule_echo = 5" "weight rule_bad = 5"
  by (simp_all add: rule_who_def rule_echo_def rule_bad_def)

lemma dir_demo_regex:
  "dir demo_regex = [''EchoRule'', ''FailingRule'', ''Lemma'', ''NeedsArgument'',
                     ''RegexTemplate'', ''WhoRule'', ''__name__'']"
  by code_simp

lemma discovered_demo_regex:
  "discovered demo_regex =
     [(''EchoRule'', rule_echo), (''FailingRule'', rule_bad), (''WhoRule'', rule_who)]"
  by (simp add: discovered_def dir_demo_regex) (simp add: demo_regex_def getattr_def)

lemma init_demo: "fst (init demo_env demo_regex demo_settings None Map.empty) = Inr demo_app"
proof -
  have "\<forall>n \<in> set (dir demo_regex). \<forall>el. getattr demo_regex n = Inr el \<longrightarrow> fatal el = None"
    by (simp add: dir_demo_regex) (simp add: demo_regex_def getattr_def)
  from discover_no_fatal [OF _ this, of "[]"]
  have "discover demo_regex (dir demo_regex) [] = Inr [rule_echo, rule_bad, rule_who]"
    using discovered_demo_regex by (simp add: discovered_def)
  then show ?thesis
    by (simp add: init_discover sort_reverse_def demo_app_def demo_env_def)
qed

section \<open>The claims\<close>

subsection \<open>C1: the ranked list of rules\<close>

text \<open>
  C1, amended. When the construction returns an application, its list of rules has one
  entry for every qualifying name of the rule module whose class could be instantiated:
  the qualifying names less those whose instantiation raises \<open>TypeError\<close> (so as many
  entries as qualifying names when no instantiation raises \<open>TypeError\<close>). The list is in
  descending order of weight, and the entries of one weight stand in the order of their
  discovery. The elements that \<open>get_queries\<close> yields come from rules of strictly
  increasing rank: no match of a later rule is yielded before a match of an earlier one.
\<close>

theorem ranked_rule_list:
  assumes "fst (init en regex settings_module printout settings) = Inr app"
  shows
    "rules app = sort_reverse weight (map snd (discovered regex)) \<and>
     length (rules app) =
       length (filter (\<lambda>name. getattr regex name \<noteq> Inr (Subclass (Inl TypeError)))
                 (qualifying_names regex)) \<and>
     ((\<forall>name \<in> set (qualifying_names regex).
          getattr regex name \<noteq> Inr (Subclass (Inl TypeError))) \<longrightarrow>
        length (rules app) = length (qualifying_names regex)) \<and>
     sorted_wrt (\<lambda>r r'. weight r \<ge> weight r') (rules app) \<and>
     (\<forall>w. filter (\<lambda>r. weight r = w) (rules app) =
            filter (\<lambda>r. weight r = w) (map snd (discovered regex))) \<and>
     (find_printout en app query_lang = (Some pf, evs) \<and>
      tagger app (encoding_flexible_conversion en question) = Inr words \<longrightarrow>
        (\<exists>ranks. sorted_wrt (<) ranks \<and>
           list_all2 (\<lambda>j t. j < length (rules app) \<and>
                        (\<exists>x u q. get_semantics (rules app ! j) words = Inr (Some x, u) \<and>
                           pf x = Inr q \<and> t = (None, Some q, u)))
             ranks (fst (collect en app (get_queries question query_lang)))))"
proof -
  from init_Inr [OF assms] have
    nf: "\<forall>n \<in> set (dir regex). \<forall>el. getattr regex n = Inr el \<longrightarrow> fatal el = None"
    and r: "rules app = sort_reverse weight (map snd (discovered regex))"
    by simp_all
  have len: "length (rules app) =
       length (filter (\<lambda>name. getattr regex name \<noteq> Inr (Subclass (Inl TypeError)))
                 (qualifying_names regex))"
    using length_named_instances [OF nf]
    by (simp add: r sort_reverse_length discovered_def qualifying_names_def)
  have all: "length (rules app) = length (qualifying_names regex)"
    if "\<forall>name \<in> set (qualifying_names regex).
          getattr regex name \<noteq> Inr (Subclass (Inl TypeError))"
  proof -
    from that have "filter (\<lambda>name. getattr regex name \<noteq> Inr (Subclass (Inl TypeError)))
                      (qualifying_names regex) = qualifying_names regex"
      by (simp add: filter_id_conv)
    with len show ?thesis by simp
  qed
  have desc: "sorted_wrt (\<lambda>r r'. weight r \<ge> weight r') (rules app)"
    unfolding r by (rule sort_reverse_descending)
  have stable: "filter (\<lambda>r. weight r = w) (rules app) =
                  filter (\<lambda>r. weight r = w) (map snd (discovered regex))" for w
    unfolding r by (rule sort_reverse_stable)
  from r len all desc stable show ?thesis
    using collect_ranks [of en app query_lang pf evs question words] by blast
qed

theorem ranked_rule_list_witness:
  "fst (init demo_env demo_regex demo_settings None Map.empty) = Inr demo_app \<and>
   map snd (discovered demo_regex) = [rule_echo, rule_bad, rule_who] \<and>
   rules demo_app = sort_reverse weight [rule_echo, rule_bad, rule_who] \<and>
   rules demo_app = [rule_who, rule_echo, rule_bad] \<and>
   map weight (rules demo_app) = [20, 5, 5] \<and>
   qualifying_names demo_regex = [''EchoRule'', ''FailingRule'', ''NeedsArgument'', ''WhoRule''] \<and>
   fst (collect demo_env demo_app (get_queries ''Who is the president?'' ''sparql'')) =
     [(None, Some ''SELECT E_high'', None), (None, Some ''SELECT Who is the president?'', Some ''echo'')] \<and>
   length (rules (demo_app\<lparr>rules := [rule_who, rule_echo]\<rparr>)) =
     length (qualifying_names [(''WhoRule'', Subclass (Inr rule_who)), (''EchoRule'', Subclass (Inr rule_echo))])"
proof -
  note th = ranked_rule_list [OF init_demo, of "''sparql''" to_sparql
      "[Lookup DefaultPrintout ''expression_to_sparql'']" "''Who is the president?''"
      "[''Who is the president?'']"]
  from th have "rules demo_app = sort_reverse weight (map snd (discovered demo_regex))"
    by (rule conjunct1)
  then have r: "rules demo_app = sort_reverse weight [rule_echo, rule_bad, rule_who]"
    by (simp add: discovered_demo_regex)
  have q: "qualifying_names demo_regex = [''EchoRule'', ''FailingRule'', ''NeedsArgument'', ''WhoRule'']"
    by code_simp
  have c: "fst (collect demo_env demo_app (get_queries ''Who is the president?'' ''sparql'')) =
     [(None, Some ''SELECT E_high'', None), (None, Some ''SELECT Who is the president?'', Some ''echo'')]"
    by code_simp
  have d: "rules demo_app = [rule_who, rule_echo, rule_bad]" by (simp add: demo_app_def)
  have w: "map weight (rules demo_app) = [20, 5, 5]" by (simp add: demo_app_def)
  have m: "map snd (discovered demo_regex) = [rule_echo, rule_bad, rule_who]"
    by (simp add: discovered_demo_regex)
  let ?m = "[(''WhoRule'', Subclass (Inr rule_who)), (''EchoRule'', Subclass (Inr rule_echo))]"
  have dm: "dir ?m = [''EchoRule'', ''WhoRule'']" by code_simp
  have qm: "qualifying_names ?m = [''EchoRule'', ''WhoRule'']"
    by (simp add: qualifying_names_def dm) (simp add: getattr_def)
  have "\<forall>n \<in> set (dir ?m). \<forall>el. getattr ?m n = Inr el \<longrightarrow> fatal el = None"
    by (simp add: dm) (simp add: getattr_def)
  from discover_no_fatal [OF _ this, of "[]"]
  have "discover ?m (dir ?m) [] = Inr [rule_echo, rule_who]"
    by (simp add: dm) (simp add: getattr_def)
  then have i: "fst (init demo_env ?m demo_settings None Map.empty) =
                  Inr (demo_app\<lparr>rules := [rule_who, rule_echo]\<rparr>)"
    by (simp add: init_discover sort_reverse_def demo_app_def demo_env_def)
  have "\<forall>name \<in> set (qualifying_names ?m). getattr ?m name \<noteq> Inr (Subclass (Inl TypeError))"
    by (simp add: qm) (simp add: getattr_def)
  with ranked_rule_list [OF i]
  have l: "length (rules (demo_app\<lparr>rules := [rule_who, rule_echo]\<rparr>)) = length (qualifying_names ?m)"
    by blast
  from init_demo m r d w q c l show ?thesis by blast
qed

text \<open>
  A module with two qualifying names, of which one is a class whose instantiation without
  arguments raises \<open>TypeError\<close>: the construction returns, with one rule.
\<close>

theorem ranked_rule_list_counterexample:
  "length (qualifying_names
            [(''NeedsArgument'', Subclass (Inl TypeError)), (''WhoRule'', Subclass (Inr rule_who))]) = 2 \<and>
   (case fst (init demo_env
                [(''NeedsArgument'', Subclass (Inl TypeError)), (''WhoRule'', Subclass (Inr rule_who))]
                demo_settings None Map.empty) of
      Inl e \<Rightarrow> None
    | Inr app \<Rightarrow> Some (length (rules app))) = Some 1"
  by code_simp

subsection \<open>C2: \<open>get_query\<close> and the first element of \<open>get_queries\<close>\<close>

text \<open>
  C2, amended. \<open>get_query(question, query_lang)\<close> returns the first element of the
  sequence of \<open>get_queries\<close> for the sanitized question, the triple of \<open>None\<close> when that
  sequence is empty, and raises what the first step of that sequence raises. For a question
  without a double quote this is the sequence of \<open>get_queries(question, query_lang)\<close>
  itself.
\<close>

theorem get_query_first_of_get_queries:
  "fst (get_query en app question query_lang) =
     (case collect en app (get_queries (question_sanitize question) query_lang) of
        (t # ts, fin, evs) \<Rightarrow> Inr t
      | ([], None, evs) \<Rightarrow> Inr (None, None, None)
      | ([], Some e, evs) \<Rightarrow> Inl e) \<and>
   (dquote \<notin> set question \<longrightarrow>
      fst (get_query en app question query_lang) =
        (case collect en app (get_queries question query_lang) of
           (t # ts, fin, evs) \<Rightarrow> Inr t
         | ([], None, evs) \<Rightarrow> Inr (None, None, None)
         | ([], Some e, evs) \<Rightarrow> Inl e))"
proof -
  have first: "fst (get_query en app question query_lang) =
     (case collect en app (get_queries (question_sanitize question) query_lang) of
        (t # ts, fin, evs) \<Rightarrow> Inr t
      | ([], None, evs) \<Rightarrow> Inr (None, None, None)
      | ([], Some e, evs) \<Rightarrow> Inl e)"
    unfolding collect_first get_queries_def get_query_step
    by (simp split: prod.splits outcome.splits)
  moreover have "question_sanitize question = question" if "dquote \<notin> set question"
    using that by (simp add: question_sanitize_replace replace_no_occurrence)
  ultimately show ?thesis by simp
qed

theorem get_query_first_of_get_queries_witness:
  "fst (get_query demo_env demo_app ''Who is the president?'' ''sparql'') =
     Inr (None, Some ''SELECT E_high'', None) \<and>
   fst (collect demo_env demo_app (get_queries ''Who is the president?'' ''sparql'')) =
     [(None, Some ''SELECT E_high'', None), (None, Some ''SELECT Who is the president?'', Some ''echo'')]"
proof -
  have q: "dquote \<notin> set ''Who is the president?''" by simp
  have c: "fst (collect demo_env demo_app (get_queries ''Who is the president?'' ''sparql'')) =
     [(None, Some ''SELECT E_high'', None), (None, Some ''SELECT Who is the president?'', Some ''echo'')]"
    by code_simp
  obtain ts fin evs where
    r: "collect demo_env demo_app (get_queries ''Who is the president?'' ''sparql'') = (ts, fin, evs)"
    by (cases "collect demo_env demo_app (get_queries ''Who is the president?'' ''sparql'')")
  from get_query_first_of_get_queries [of demo_env demo_app "''Who is the president?''" "''sparql''"] q
  have "fst (get_query demo_env demo_app ''Who is the president?'' ''sparql'') =
     (case collect demo_env demo_app (get_queries ''Who is the president?'' ''sparql'') of
        (t # ts, fin, evs) \<Rightarrow> Inr t
      | ([], None, evs) \<Rightarrow> Inr (None, None, None)
      | ([], Some e, evs) \<Rightarrow> Inl e)"
    by blast
  with c r show ?thesis by simp
qed

text \<open>
  For the question made of one double quote the two differ: \<open>get_query\<close> tags the escaped
  text, \<open>get_queries\<close> the text as it is, and the second rule of the example puts the text
  into its expression.
\<close>

theorem get_query_differs_on_double_quote:
  "fst (get_query demo_env demo_app [dquote] ''sparql'') \<noteq>
     (case collect demo_env demo_app (get_queries [dquote] ''sparql'') of
        (t # ts, fin, evs) \<Rightarrow> Inr t
      | ([], None, evs) \<Rightarrow> Inr (None, None, None)
      | ([], Some e, evs) \<Rightarrow> Inl e)"
  by code_simp

subsection \<open>C3: the first match ends the evaluation\<close>

text \<open>
  C3. When the rule at rank \<open>k\<close> yields a non-empty expression for the tagged question,
  \<open>get_query\<close> calls \<open>get_semantics\<close> of no rule ranked after \<open>k\<close>; when \<open>k\<close> is the
  first such rule and the serializer was found, the rules called are exactly those of
  ranks \<open>0, ..., k\<close>, in this order.
\<close>

theorem get_query_stops_at_first_match:
  assumes "tagger app (encoding_flexible_conversion en (question_sanitize question)) = Inr words"
    and "k < length (rules app)"
    and "get_semantics (rules app ! k) words = Inr (Some x, u)"
  shows "(\<forall>i \<in> set (matched (snd (get_query en app question query_lang))). i \<le> k) \<and>
         ((\<forall>j<k. \<exists>v. get_semantics (rules app ! j) words = Inr (None, v)) \<and>
          fst (find_printout en app query_lang) \<noteq> None \<longrightarrow>
            matched (snd (get_query en app question query_lang)) = [0..<Suc k])"
proof (cases "fst (find_printout en app query_lang)")
  case None
  then show ?thesis by (simp add: get_query_matched [OF assms(1)])
next
  case (Some pf)
  have m: "matched (snd (get_query en app question query_lang)) =
             matched (snd (snd (match_loop words (rules app) 0)))"
    by (simp add: get_query_matched [OF assms(1)] Some)
  have "\<forall>i \<in> set (matched (snd (snd (match_loop words (rules app) 0)))). i \<le> k"
    using match_loop_matched_le [OF assms(2,3), of 0] by simp
  moreover have "matched (snd (snd (match_loop words (rules app) 0))) = [0..<Suc k]"
    if "\<forall>j<k. \<exists>v. get_semantics (rules app ! j) words = Inr (None, v)"
  proof -
    have "matched (map Match xs) = xs" for xs by (induction xs) simp_all
    then show ?thesis using match_loop_first [OF assms(2,3) that, of 0] by simp
  qed
  ultimately show ?thesis unfolding m by blast
qed

theorem get_query_stops_at_first_match_witness:
  "matched (snd (get_query demo_env demo_app ''What is the capital?'' ''sparql'')) = [0, 1]"
proof -
  have "tagger demo_app (encoding_flexible_conversion demo_env (question_sanitize ''What is the capital?''))
          = Inr [''What is the capital?'']"
    by code_simp
  moreover have "(1::nat) < length (rules demo_app)" by code_simp
  moreover have "get_semantics (rules demo_app ! 1) [''What is the capital?'']
                   = Inr (Some ''What is the capital?'', Some ''echo'')"
    by code_simp
  moreover have "\<forall>j<1::nat. \<exists>v. get_semantics (rules demo_app ! j) [''What is the capital?''] = Inr (None, v)"
    by (simp add: demo_app_def rule_who_def)
  moreover have "fst (find_printout demo_env demo_app ''sparql'') \<noteq> None" by code_simp
  ultimately show ?thesis
    using get_query_stops_at_first_match [of demo_app demo_env "''What is the capital?''"
        "[''What is the capital?'']" 1 "''What is the capital?''" "Some ''echo''" "''sparql''"]
    by (simp add: upt_rec)
qed

subsection \<open>C4: finding the serializer\<close>

text \<open>
  C4. The name \<open>expression_to_\<close> followed by the lower-cased query language is looked up
  first in the printout module of the application, when there is one; when that module is
  absent, lacks the name or binds it to a false value, the name is looked up in
  \<open>quepy.printout\<close>. When neither has it, \<open>get_queries\<close> yields nothing and
  \<open>get_query\<close> returns the triple of \<open>None\<close>, neither raises, the last event is the
  logged error, and the tagger and the rules are not called. In every call each module is
  looked up at most once, however many rules there are.
\<close>

theorem serializer_resolution:
  "(\<forall>m f. printout_module app = Some m \<and>
          getattr m (''expression_to_'' @ lower query_lang) = Inr (Some f) \<longrightarrow>
      find_printout en app query_lang =
        (Some f, [Lookup AppPrintout (''expression_to_'' @ lower query_lang)])) \<and>
   (\<forall>m. printout_module app = Some m \<and>
        (getattr m (''expression_to_'' @ lower query_lang) = Inl AttributeError \<or>
         getattr m (''expression_to_'' @ lower query_lang) = Inr None) \<longrightarrow>
      find_printout en app query_lang =
        (case getattr (quepy_printout en) (''expression_to_'' @ lower query_lang) of
           Inl e \<Rightarrow> None | Inr f \<Rightarrow> f,
         [Lookup AppPrintout (''expression_to_'' @ lower query_lang),
          Lookup DefaultPrintout (''expression_to_'' @ lower query_lang)])) \<and>
   (printout_module app = None \<longrightarrow>
      find_printout en app query_lang =
        (case getattr (quepy_printout en) (''expression_to_'' @ lower query_lang) of
           Inl e \<Rightarrow> None | Inr f \<Rightarrow> f,
         [Lookup DefaultPrintout (''expression_to_'' @ lower query_lang)])) \<and>
   (fst (find_printout en app query_lang) = None \<longrightarrow>
      fst (collect en app (get_queries question query_lang)) = [] \<and>
      fst (snd (collect en app (get_queries question query_lang))) = None \<and>
      snd (snd (collect en app (get_queries question query_lang))) =
        snd (find_printout en app query_lang) @ [LogMsg ERROR] \<and>
      get_query en app question query_lang =
        (Inr (None, None, None), snd (find_printout en app query_lang) @ [LogMsg ERROR]) \<and>
      tagged (snd (snd (collect en app (get_queries question query_lang)))) = [] \<and>
      matched (snd (snd (collect en app (get_queries question query_lang)))) = [] \<and>
      tagged (snd (get_query en app question query_lang)) = [] \<and>
      matched (snd (get_query en app question query_lang)) = []) \<and>
   lookups (snd (snd (collect en app (get_queries question query_lang)))) =
     lookups (snd (find_printout en app query_lang)) \<and>
   lookups (snd (get_query en app question query_lang)) =
     lookups (snd (find_printout en app query_lang))"
proof -
  let ?name = "''expression_to_'' @ lower query_lang"
  have app_first: "find_printout en app query_lang = (Some f, [Lookup AppPrintout ?name])"
    if "printout_module app = Some m" "getattr m ?name = Inr (Some f)" for m f
    using that by (simp add: find_printout_def Let_def)
  have fallback: "find_printout en app query_lang =
        (case getattr (quepy_printout en) ?name of Inl e \<Rightarrow> None | Inr f \<Rightarrow> f,
         [Lookup AppPrintout ?name, Lookup DefaultPrintout ?name])"
    if "printout_module app = Some m"
      "getattr m ?name = Inl AttributeError \<or> getattr m ?name = Inr None" for m
    using that by (auto simp: find_printout_def Let_def split: sum.splits option.splits)
  have default_only: "find_printout en app query_lang =
        (case getattr (quepy_printout en) ?name of Inl e \<Rightarrow> None | Inr f \<Rightarrow> f,
         [Lookup DefaultPrintout ?name])"
    if "printout_module app = None"
    using that by (auto simp: find_printout_def Let_def split: sum.splits option.splits)
  have failure:
    "fst (collect en app (get_queries question query_lang)) = [] \<and>
      fst (snd (collect en app (get_queries question query_lang))) = None \<and>
      snd (snd (collect en app (get_queries question query_lang))) =
        snd (find_printout en app query_lang) @ [LogMsg ERROR] \<and>
      get_query en app question query_lang =
        (Inr (None, None, None), snd (find_printout en app query_lang) @ [LogMsg ERROR]) \<and>
      tagged (snd (snd (collect en app (get_queries question query_lang)))) = [] \<and>
      matched (snd (snd (collect en app (get_queries question query_lang)))) = [] \<and>
      tagged (snd (get_query en app question query_lang)) = [] \<and>
      matched (snd (get_query en app question query_lang)) = []"
    if "fst (find_printout en app query_lang) = None"
    using find_printout_lookups [of en app query_lang]
    by (simp add: collect_unresolved [OF that] get_query_unresolved [OF that])
  from app_first fallback default_only failure show ?thesis
    using collect_lookups [of en app question query_lang]
      get_query_lookups [of en app question query_lang]
    by blast
qed

theorem serializer_resolution_witness:
  "find_printout demo_env (demo_app\<lparr>printout_module := Some [(''expression_to_mql'', Some to_sparql)]\<rparr>) ''MQL''
     = (Some to_sparql, [Lookup AppPrintout ''expression_to_mql'']) \<and>
   find_printout demo_env (demo_app\<lparr>printout_module := Some [(''expression_to_mql'', Some to_sparql)]\<rparr>) ''Sparql''
     = (Some to_sparql, [Lookup AppPrintout ''expression_to_sparql'', Lookup DefaultPrintout ''expression_to_sparql'']) \<and>
   find_printout demo_env demo_app ''sparql''
     = (Some to_sparql, [Lookup DefaultPrintout ''expression_to_sparql'']) \<and>
   collect demo_env demo_app (get_queries ''Who is the president?'' ''sql'') =
     ([], None, [Lookup DefaultPrintout ''expression_to_sql'', LogMsg ERROR]) \<and>
   get_query demo_env demo_app ''Who is the president?'' ''sql'' =
     (Inr (None, None, None), [Lookup DefaultPrintout ''expression_to_sql'', LogMsg ERROR])"
proof -
  let ?app = "demo_app\<lparr>printout_module := Some [(''expression_to_mql'', Some to_sparql)]\<rparr>"
  have l: "lower ''MQL'' = ''mql''" "lower ''Sparql'' = ''sparql''" "lower ''sparql'' = ''sparql''"
    "lower ''sql'' = ''sql''"
    by code_simp+
  have a: "printout_module ?app = Some [(''expression_to_mql'', Some to_sparql)]" by simp
  have b: "getattr [(''expression_to_mql'', Some to_sparql)] (''expression_to_'' @ lower ''MQL'')
             = Inr (Some to_sparql)"
    by (simp add: getattr_def l)
  have c: "getattr [(''expression_to_mql'', Some to_sparql)] (''expression_to_'' @ lower ''Sparql'')
             = Inl AttributeError"
    by (simp add: getattr_def l)
  have d: "printout_module demo_app = None" by (simp add: demo_app_def)
  have e: "getattr (quepy_printout demo_env) (''expression_to_'' @ lower ''Sparql'') = Inr (Some to_sparql)"
    "getattr (quepy_printout demo_env) (''expression_to_'' @ lower ''sparql'') = Inr (Some to_sparql)"
    "getattr (quepy_printout demo_env) (''expression_to_'' @ lower ''sql'') = Inl AttributeError"
    by (simp_all add: getattr_def l demo_env_def)
  note t1 = serializer_resolution [of ?app "''MQL''" demo_env "''Who is the president?''"]
  note t2 = serializer_resolution [of ?app "''Sparql''" demo_env "''Who is the president?''"]
  note t3 = serializer_resolution [of demo_app "''sparql''" demo_env "''Who is the president?''"]
  note t4 = serializer_resolution [of demo_app "''sql''" demo_env "''Who is the president?''"]
  have 1: "find_printout demo_env ?app ''MQL'' = (Some to_sparql, [Lookup AppPrintout ''expression_to_mql''])"
    using t1 a b l by simp
  have 2: "find_printout demo_env ?app ''Sparql''
     = (Some to_sparql, [Lookup AppPrintout ''expression_to_sparql'', Lookup DefaultPrintout ''expression_to_sparql''])"
    using t2 a c e l by simp
  have 3: "find_printout demo_env demo_app ''sparql''
     = (Some to_sparql, [Lookup DefaultPrintout ''expression_to_sparql''])"
    using t3 d e l by simp
  have 4: "find_printout demo_env demo_app ''sql'' = (None, [Lookup DefaultPrintout ''expression_to_sql''])"
    using t4 d e l by simp
  have 5: "collect demo_env demo_app (get_queries ''Who is the president?'' ''sql'') =
     ([], None, [Lookup DefaultPrintout ''expression_to_sql'', LogMsg ERROR])"
    using t4 4 by (simp add: prod_eq_iff)
  have 6: "get_query demo_env demo_app ''Who is the president?'' ''sql'' =
     (Inr (None, None, None), [Lookup DefaultPrintout ''expression_to_sql'', LogMsg ERROR])"
    using t4 4 by simp
  from 1 2 3 5 6 show ?thesis by blast
qed

subsection \<open>C5: a question that the tagger cannot parse\<close>

text \<open>
  C5. When the tagger raises \<open>TaggingError\<close> on the question, \<open>get_queries\<close> yields
  nothing and ends without an exception; the events of the call are the lookup of the
  serializer, the call of the tagger and the logged warning. The application is a value
  that the call does not change: another question, asked afterwards, gets the elements
  that the rules and the serializer give for it.
\<close>

theorem tagging_error_yields_nothing:
  assumes "tagger app (encoding_flexible_conversion en question) = Inl TaggingError"
  shows "fst (collect en app (get_queries question query_lang)) = [] \<and>
         fst (snd (collect en app (get_queries question query_lang))) = None \<and>
         (fst (find_printout en app query_lang) \<noteq> None \<longrightarrow>
            snd (snd (collect en app (get_queries question query_lang))) =
              snd (find_printout en app query_lang) @
                [Tag (encoding_flexible_conversion en question), LogMsg WARNING]) \<and>
         (\<forall>question' words pf.
            tagger app (encoding_flexible_conversion en question') = Inr words \<and>
            fst (find_printout en app query_lang) = Some pf \<longrightarrow>
              fst (collect en app (get_queries question' query_lang)) =
                fst (run_rules words pf (rules app) 0))"
proof -
  obtain pfo evs where f: "find_printout en app query_lang = (pfo, evs)"
    by (cases "find_printout en app query_lang")
  have failing: "collect en app (get_queries question query_lang) =
      (case pfo of
         None \<Rightarrow> ([], None, evs @ [LogMsg ERROR])
       | Some pf \<Rightarrow> ([], None, evs @ [Tag (encoding_flexible_conversion en question), LogMsg WARNING]))"
    by (simp add: get_queries_def collect_Start f assms split: option.splits)
  have later: "fst (collect en app (get_queries question' query_lang)) =
                 fst (run_rules words pf (rules app) 0)"
    if "tagger app (encoding_flexible_conversion en question') = Inr words" "pfo = Some pf"
    for question' words pf
    using that by (simp add: get_queries_def collect_Start f split: prod.splits)
  from failing later show ?thesis
    by (cases pfo) (simp_all add: f)
qed

theorem tagging_error_yields_nothing_witness:
  "collect demo_env demo_app (get_queries '''' ''sparql'') =
     ([], None, [Lookup DefaultPrintout ''expression_to_sparql'', Tag '''', LogMsg WARNING]) \<and>
   fst (collect demo_env demo_app (get_queries ''Who is the president?'' ''sparql'')) =
     [(None, Some ''SELECT E_high'', None), (None, Some ''SELECT Who is the president?'', Some ''echo'')]"
proof -
  have t: "tagger demo_app (encoding_flexible_conversion demo_env '''') = Inl TaggingError"
    by code_simp
  have t': "tagger demo_app (encoding_flexible_conversion demo_env ''Who is the president?'') =
              Inr [''Who is the president?'']"
    by code_simp
  have f: "find_printout demo_env demo_app ''sparql'' =
             (Some to_sparql, [Lookup DefaultPrintout ''expression_to_sparql''])"
    by (simp add: find_printout_def demo_app_def demo_env_def getattr_def lower_def lower_char_def)
  have e: "encoding_flexible_conversion demo_env '''' = ''''" by code_simp
  have r: "fst (run_rules [''Who is the president?''] to_sparql (rules demo_app) 0) =
     [(None, Some ''SELECT E_high'', None), (None, Some ''SELECT Who is the president?'', Some ''echo'')]"
    by code_simp
  from tagging_error_yields_nothing [OF t, of "''sparql''"] t' f e r show ?thesis
    by (simp add: prod_eq_iff)
qed

subsection \<open>C6: what the sanitization does\<close>

text \<open>
  C6, amended. \<open>question_sanitize\<close> works character by character: it maps a double quote
  to a backslash followed by a double quote and leaves every character that is no quote as
  it is. \<open>get_query\<close> applies it once, before the tagger is called: the tagger gets the
  normalized sanitized question, once. \<open>get_queries\<close> does not apply it: there the tagger
  gets the normalized question as it was passed.
\<close>

theorem question_sanitize_escapes_double_quote:
  "question_sanitize (a @ b) = question_sanitize a @ question_sanitize b \<and>
   question_sanitize [dquote] = [backslash, dquote] \<and>
   (c \<noteq> squote \<and> c \<noteq> dquote \<longrightarrow> question_sanitize [c] = [c]) \<and>
   tagged (snd (get_query en app question query_lang)) =
     (if fst (find_printout en app query_lang) = None then []
      else [encoding_flexible_conversion en (question_sanitize question)]) \<and>
   tagged (snd (snd (collect en app (get_queries question query_lang)))) =
     (if fst (find_printout en app query_lang) = None then []
      else [encoding_flexible_conversion en question])"
proof -
  have "question_sanitize (a @ b) = question_sanitize a @ question_sanitize b"
    by (simp add: question_sanitize_replace replace_append)
  moreover have "question_sanitize [dquote] = [backslash, dquote]"
    by (simp add: question_sanitize_replace replace_def)
  moreover have "question_sanitize [c] = [c]" if "c \<noteq> dquote"
    using that by (simp add: question_sanitize_replace replace_def)
  ultimately show ?thesis
    using get_query_tagged [of en app question query_lang]
      collect_tagged [of en app question query_lang]
    by simp
qed

theorem question_sanitize_escapes_double_quote_witness:
  "question_sanitize (''He said '' @ [dquote] @ ''hi'' @ [dquote]) =
     ''He said '' @ [backslash, dquote] @ ''hi'' @ [backslash, dquote] \<and>
   question_sanitize ''H'' = ''H'' \<and>
   tagged (snd (get_query demo_env demo_app (''He said '' @ [dquote] @ ''hi'' @ [dquote]) ''sparql'')) =
     [''He said '' @ [backslash, dquote] @ ''hi'' @ [backslash, dquote]]"
proof -
  let ?q = "''He said '' @ [dquote] @ ''hi'' @ [dquote]"
  have s: "question_sanitize ?q = ''He said '' @ [backslash, dquote] @ ''hi'' @ [backslash, dquote]"
    by code_simp
  have f: "fst (find_printout demo_env demo_app ''sparql'') \<noteq> None" by code_simp
  have e: "encoding_flexible_conversion demo_env s = s" for s by (simp add: demo_env_def)
  have c: "CHR ''H'' \<noteq> squote \<and> CHR ''H'' \<noteq> dquote" by simp
  from question_sanitize_escapes_double_quote [of "''He said ''" "[dquote] @ ''hi'' @ [dquote]"
      "CHR ''H''" demo_env demo_app ?q "''sparql''"] s f e c
  show ?thesis by simp
qed

text \<open>
  A single quote comes out of \<open>question_sanitize\<close> as it went in, and \<open>get_queries\<close>
  gives the tagger a double quote that is not escaped.
\<close>

theorem question_sanitize_counterexample:
  "question_sanitize [squote] = [squote] \<and>
   tagged (snd (snd (collect demo_env demo_app (get_queries [dquote] ''sparql'')))) = [[dquote]]"
  by code_simp

subsection \<open>C7: the settings that are copied\<close>

text \<open>
  C7. Loading an application never fails in the settings loop, and afterwards the shared
  settings hold, under each name of the settings module that equals its own upper-casing,
  the value of that name (passed through \<open>encoding_flexible_conversion\<close> when it is a
  \<open>str\<close>); every other name is bound as it was before the load, so a name that is not
  upper-case is not copied. A name equals its own upper-casing exactly when it has no
  lower-case letter.
\<close>

theorem settings_are_propagated:
  "fst (save_settings_values en settings_module settings) = None \<and>
   snd (init en regex settings_module printout settings) key =
     (case map_of settings_module key of
        Some v \<Rightarrow>
          if upper key = key
          then Some (case v of Str s \<Rightarrow> Str (encoding_flexible_conversion en s)
                     | Other x \<Rightarrow> Other x)
          else settings key
      | None \<Rightarrow> settings key) \<and>
   (upper key = key \<longleftrightarrow> (\<forall>c \<in> set key. \<not> (CHR ''a'' \<le> c \<and> c \<le> CHR ''z'')))"
proof -
  have l: "save_settings_values en settings_module settings =
       (None, \<lambda>key. if key \<in> set (dir settings_module) \<and> upper key = key
                     then map_option (convert_if_str (encoding_flexible_conversion en))
                            (map_of settings_module key)
                     else settings key)"
    unfolding save_settings_values_def by (rule save_settings_loop_result) simp
  have "snd (init en regex settings_module printout settings) key =
     (case map_of settings_module key of
        Some v \<Rightarrow>
          if upper key = key
          then Some (case v of Str s \<Rightarrow> Str (encoding_flexible_conversion en s)
                     | Other x \<Rightarrow> Other x)
          else settings key
      | None \<Rightarrow> settings key)"
  proof (cases "key \<in> set (dir settings_module)")
    case True
    from getattr_dir [OF True] show ?thesis
      by (auto simp: init_settings l True convert_if_str_def)
  next
    case False
    from getattr_not_dir [OF False] show ?thesis by (simp add: init_settings l False)
  qed
  with l upper_fixed [of key] show ?thesis by simp
qed

theorem settings_are_propagated_witness:
  "snd (init demo_env demo_regex demo_settings None Map.empty) ''FOO'' = Some (Str ''bar'') \<and>
   snd (init demo_env demo_regex demo_settings None Map.empty) ''_private'' = None"
proof -
  have u: "upper ''FOO'' = ''FOO''" "upper ''_private'' \<noteq> ''_private''" by code_simp+
  have m: "map_of demo_settings ''FOO'' = Some (Str ''bar'')"
    "map_of demo_settings ''_private'' = Some (Other 1)"
    by (simp_all add: demo_settings_def)
  have e: "encoding_flexible_conversion demo_env ''bar'' = ''bar''" by (simp add: demo_env_def)
  from settings_are_propagated [of demo_env demo_settings Map.empty demo_regex None "''FOO''"]
    settings_are_propagated [of demo_env demo_settings Map.empty demo_regex None "''_private''"]
    u m e
  show ?thesis by simp
qed

subsection \<open>C8: what the construction skips and what it lets through\<close>

text \<open>
  C8, amended. The names of the rule module that contribute a rule are those bound to a
  subclass of \<open>RegexTemplate\<close> whose instantiation returns; a name bound to something
  that is no class, to another class, to \<open>RegexTemplate\<close> itself, or to a subclass whose
  instantiation raises \<open>TypeError\<close> is skipped, and when nothing else happens the
  construction returns. An exception other than \<open>TypeError\<close> raised by the instantiation of
  a subclass leaves the construction: it raises the exception of the first such name.
\<close>

theorem construction_skips_and_fails:
  "map fst (discovered regex) =
     filter (\<lambda>name. \<exists>r. getattr regex name = Inr (Subclass (Inr r))) (dir regex) \<and>
   ((\<forall>name \<in> set (dir regex). \<forall>e. getattr regex name = Inr (Subclass (Inl e)) \<longrightarrow> e = TypeError) \<longrightarrow>
      fst (init en regex settings_module printout settings) =
        Inr \<lparr>tagger = get_tagger en,
              rules = sort_reverse weight (map snd (discovered regex)),
              printout_module = printout\<rparr>) \<and>
   (dir regex = ns1 @ name # ns2 \<and>
    (\<forall>n \<in> set ns1. \<forall>e'. getattr regex n = Inr (Subclass (Inl e')) \<longrightarrow> e' = TypeError) \<and>
    getattr regex name = Inr (Subclass (Inl e)) \<and> e \<noteq> TypeError \<longrightarrow>
      fst (init en regex settings_module printout settings) = Inl e) \<and>
   ((\<exists>name \<in> set (dir regex). \<exists>e. getattr regex name = Inr (Subclass (Inl e)) \<and> e \<noteq> TypeError) \<longrightarrow>
      (\<exists>e. fst (init en regex settings_module printout settings) = Inl e))"
proof (intro conjI impI)
  show "map fst (discovered regex) =
     filter (\<lambda>name. \<exists>r. getattr regex name = Inr (Subclass (Inr r))) (dir regex)"
    by (simp add: discovered_def names_of_named_instances)
next
  assume "\<forall>name \<in> set (dir regex). \<forall>e. getattr regex name = Inr (Subclass (Inl e)) \<longrightarrow> e = TypeError"
  then have "\<forall>n \<in> set (dir regex). \<forall>el. getattr regex n = Inr el \<longrightarrow> fatal el = None"
    by (simp add: fatal_None_iff)
  from discover_no_fatal [OF _ this, of "[]"]
  show "fst (init en regex settings_module printout settings) =
        Inr \<lparr>tagger = get_tagger en,
              rules = sort_reverse weight (map snd (discovered regex)),
              printout_module = printout\<rparr>"
    by (simp add: init_discover discovered_def)
next
  assume a: "dir regex = ns1 @ name # ns2 \<and>
    (\<forall>n \<in> set ns1. \<forall>e'. getattr regex n = Inr (Subclass (Inl e')) \<longrightarrow> e' = TypeError) \<and>
    getattr regex name = Inr (Subclass (Inl e)) \<and> e \<noteq> TypeError"
  then have 1: "set ns1 \<subseteq> set (dir regex)" by auto
  from a have 2: "\<forall>n \<in> set ns1. \<forall>el. getattr regex n = Inr el \<longrightarrow> fatal el = None"
    by (simp add: fatal_None_iff)
  from a have 3: "getattr regex name = Inr (Subclass (Inl e))" "fatal (Subclass (Inl e)) = Some e"
    by simp_all
  from discover_fatal [OF 1 2 3, of ns2 "[]"] a
  show "fst (init en regex settings_module printout settings) = Inl e"
    by (simp add: init_discover)
next
  assume "\<exists>name \<in> set (dir regex). \<exists>e. getattr regex name = Inr (Subclass (Inl e)) \<and> e \<noteq> TypeError"
  then have "\<exists>n \<in> set (dir regex). \<exists>el e. getattr regex n = Inr el \<and> fatal el = Some e"
    by (auto simp: fatal_Some_iff)
  from discover_some_fatal [OF _ this, of "[]"]
  show "\<exists>e. fst (init en regex settings_module printout settings) = Inl e"
    by (auto simp: init_discover)
qed

theorem construction_skips_and_fails_witness:
  "fst (init demo_env demo_regex demo_settings None Map.empty) = Inr demo_app \<and>
   map fst (discovered demo_regex) = [''EchoRule'', ''FailingRule'', ''WhoRule''] \<and>
   dir demo_broken = [''AnyRule''] @ ''Broken'' # [''WhoRule'', ''__doc__''] \<and>
   fst (init demo_env demo_broken demo_settings None Map.empty) = Inl (OtherError ''init'')"
proof -
  have d: "dir demo_broken = [''AnyRule''] @ ''Broken'' # [''WhoRule'', ''__doc__'']"
    by code_simp
  have b: "(\<forall>n \<in> set [''AnyRule'']. \<forall>e'. getattr demo_broken n = Inr (Subclass (Inl e')) \<longrightarrow> e' = TypeError)"
    "getattr demo_broken ''Broken'' = Inr (Subclass (Inl (OtherError ''init'')))"
    "OtherError ''init'' \<noteq> TypeError"
    by (simp_all add: demo_broken_def getattr_def)
  from construction_skips_and_fails [where regex = demo_broken and ?ns1.0 = "[''AnyRule'']"
      and name = "''Broken''" and ?ns2.0 = "[''WhoRule'', ''__doc__'']"
      and e = "OtherError ''init''" and en = demo_env and settings_module = demo_settings
      and printout = None and settings = Map.empty] d b
  have 1: "fst (init demo_env demo_broken demo_settings None Map.empty) = Inl (OtherError ''init'')"
    by blast
  have "\<forall>name \<in> set (dir demo_regex). \<forall>e. getattr demo_regex name = Inr (Subclass (Inl e)) \<longrightarrow> e = TypeError"
    by (simp add: dir_demo_regex) (simp add: demo_regex_def getattr_def)
  with construction_skips_and_fails [where regex = demo_regex and en = demo_env
      and settings_module = demo_settings and printout = None and settings = Map.empty]
  have "fst (init demo_env demo_regex demo_settings None Map.empty) =
        Inr \<lparr>tagger = get_tagger demo_env,
              rules = sort_reverse weight (map snd (discovered demo_regex)),
              printout_module = None\<rparr>"
    by blast
  then have 2: "fst (init demo_env demo_regex demo_settings None Map.empty) = Inr demo_app"
    by (simp add: discovered_demo_regex sort_reverse_def demo_app_def demo_env_def)
  have 3: "map fst (discovered demo_regex) = [''EchoRule'', ''FailingRule'', ''WhoRule'']"
    by (simp add: discovered_demo_regex)
  from 1 2 3 d show ?thesis by blast
qed

text \<open>
  A subclass whose instantiation without arguments raises \<open>TypeError\<close>: the construction
  returns an application without rules, the exception does not reach the caller.
\<close>

theorem construction_swallows_TypeError:
  "(case fst (init demo_env
                ([(''NeedsArgument'', Subclass (Inl TypeError))] :: (string, string, string) element module)
                demo_settings None Map.empty) of
      Inl e \<Rightarrow> None
    | Inr app \<Rightarrow> Some (length (rules app))) = Some 0"
  by code_simp

subsection \<open>C9: the order of discovery\<close>



subsection \<open>C10: the exceptions that leave the pipeline\<close>

text \<open>
  C10, amended. With the serializer found: an exception other than \<open>TaggingError\<close> and
  \<open>StopIteration\<close> that the tagger raises leaves \<open>get_queries\<close> (when the sequence is
  consumed) and \<open>get_query\<close>. Every exception other than \<open>StopIteration\<close>
  (\<open>TaggingError\<close> too) that \<open>get_semantics\<close> of a rule or the serializer raises leaves
  \<open>get_queries\<close> when the rules before it pass, and leaves \<open>get_query\<close> when the rules
  before it do not match. A \<open>StopIteration\<close> raised by the tagger, by \<open>get_semantics\<close> or
  by the serializer does not reach the caller: it ends the sequence of \<open>get_queries\<close>
  without an exception, and \<open>get_query\<close> returns the triple of \<open>None\<close>.
\<close>

theorem only_tagging_error_is_caught:
  assumes "find_printout en app query_lang = (Some pf, evs)"
  shows
    "(tagger app (encoding_flexible_conversion en question) = Inl e \<and> e \<noteq> TaggingError \<and>
      e \<noteq> StopIterationExn \<longrightarrow>
        fst (snd (collect en app (get_queries question query_lang))) = Some e) \<and>
     (tagger app (encoding_flexible_conversion en (question_sanitize question)) = Inl e \<and>
      e \<noteq> TaggingError \<and> e \<noteq> StopIterationExn \<longrightarrow>
        fst (get_query en app question query_lang) = Inl e) \<and>
     (tagger app (encoding_flexible_conversion en question) = Inr words \<and>
      k < length (rules app) \<and> (\<forall>j<k. passes words pf (rules app ! j)) \<and>
      fails words pf (rules app ! k) e \<and> e \<noteq> StopIterationExn \<longrightarrow>
        fst (snd (collect en app (get_queries question query_lang))) = Some e) \<and>
     (tagger app (encoding_flexible_conversion en (question_sanitize question)) = Inr words \<and>
      k < length (rules app) \<and>
      (\<forall>j<k. \<exists>v. get_semantics (rules app ! j) words = Inr (None, v)) \<and>
      fails words pf (rules app ! k) e \<and> e \<noteq> StopIterationExn \<longrightarrow>
        fst (get_query en app question query_lang) = Inl e) \<and>
     (tagger app (encoding_flexible_conversion en question) = Inl StopIterationExn \<longrightarrow>
        fst (collect en app (get_queries question query_lang)) = [] \<and>
        fst (snd (collect en app (get_queries question query_lang))) = None) \<and>
     (tagger app (encoding_flexible_conversion en (question_sanitize question)) =
        Inl StopIterationExn \<longrightarrow>
        fst (get_query en app question query_lang) = Inr (None, None, None)) \<and>
     (tagger app (encoding_flexible_conversion en question) = Inr words \<and>
      k < length (rules app) \<and> (\<forall>j<k. passes words pf (rules app ! j)) \<and>
      fails words pf (rules app ! k) StopIterationExn \<longrightarrow>
        fst (snd (collect en app (get_queries question query_lang))) = None) \<and>
     (tagger app (encoding_flexible_conversion en (question_sanitize question)) = Inr words \<and>
      k < length (rules app) \<and>
      (\<forall>j<k. \<exists>v. get_semantics (rules app ! j) words = Inr (None, v)) \<and>
      fails words pf (rules app ! k) StopIterationExn \<longrightarrow>
        fst (get_query en app question query_lang) = Inr (None, None, None))"
proof (intro conjI impI)
  assume "tagger app (encoding_flexible_conversion en question) = Inl e \<and> e \<noteq> TaggingError \<and>
      e \<noteq> StopIterationExn"
  then show "fst (snd (collect en app (get_queries question query_lang))) = Some e"
    using collect_tagger_raises [OF assms, of question e] by simp
next
  assume "tagger app (encoding_flexible_conversion en (question_sanitize question)) = Inl e \<and>
      e \<noteq> TaggingError \<and> e \<noteq> StopIterationExn"
  then show "fst (get_query en app question query_lang) = Inl e"
    using get_query_tagger_raises [OF assms, of question e] by simp
next
  assume "tagger app (encoding_flexible_conversion en question) = Inr words \<and>
      k < length (rules app) \<and> (\<forall>j<k. passes words pf (rules app ! j)) \<and>
      fails words pf (rules app ! k) e \<and> e \<noteq> StopIterationExn"
  then show "fst (snd (collect en app (get_queries question query_lang))) = Some e"
    using collect_rule_fails [OF assms, of question words k e] by simp
next
  assume "tagger app (encoding_flexible_conversion en (question_sanitize question)) = Inr words \<and>
      k < length (rules app) \<and>
      (\<forall>j<k. \<exists>v. get_semantics (rules app ! j) words = Inr (None, v)) \<and>
      fails words pf (rules app ! k) e \<and> e \<noteq> StopIterationExn"
  then show "fst (get_query en app question query_lang) = Inl e"
    using get_query_rule_fails [OF assms, of question words k e] by simp
next
  assume "tagger app (encoding_flexible_conversion en question) = Inl StopIterationExn"
  then show "fst (collect en app (get_queries question query_lang)) = []"
    by (simp add: get_queries_def collect_Start assms)
next
  assume "tagger app (encoding_flexible_conversion en question) = Inl StopIterationExn"
  then show "fst (snd (collect en app (get_queries question query_lang))) = None"
    using collect_tagger_raises [OF assms, of question StopIterationExn] by simp
next
  assume "tagger app (encoding_flexible_conversion en (question_sanitize question)) =
        Inl StopIterationExn"
  then show "fst (get_query en app question query_lang) = Inr (None, None, None)"
    using get_query_tagger_raises [OF assms, of question StopIterationExn] by simp
next
  assume "tagger app (encoding_flexible_conversion en question) = Inr words \<and>
      k < length (rules app) \<and> (\<forall>j<k. passes words pf (rules app ! j)) \<and>
      fails words pf (rules app ! k) StopIterationExn"
  then show "fst (snd (collect en app (get_queries question query_lang))) = None"
    using collect_rule_fails [OF assms, of question words k StopIterationExn] by simp
next
  assume "tagger app (encoding_flexible_conversion en (question_sanitize question)) = Inr words \<and>
      k < length (rules app) \<and>
      (\<forall>j<k. \<exists>v. get_semantics (rules app ! j) words = Inr (None, v)) \<and>
      fails words pf (rules app ! k) StopIterationExn"
  then show "fst (get_query en app question query_lang) = Inr (None, None, None)"
    using get_query_rule_fails [OF assms, of question words k StopIterationExn] by simp
qed

theorem only_tagging_error_is_caught_witness:
  "fst (snd (collect demo_env demo_app (get_queries ''?'' ''sparql''))) = Some (OtherError ''tagger'') \<and>
   fst (get_query demo_env demo_app ''?'' ''sparql'') = Inl (OtherError ''tagger'') \<and>
   fst (snd (collect demo_env demo_app (get_queries ''What'' ''sparql''))) = Some (OtherError ''rule'') \<and>
   fst (get_query demo_env demo_app ''Why'' ''sparql'') = Inl (OtherError ''printout'') \<and>
   fst (snd (collect demo_env (demo_app\<lparr>rules := [rule_who, rule_stop, rule_echo]\<rparr>)
               (get_queries ''What'' ''sparql''))) = None \<and>
   fst (get_query demo_env (demo_app\<lparr>rules := [rule_who, rule_stop, rule_echo]\<rparr>) ''What'' ''sparql'') =
     Inr (None, None, None)"
proof -
  let ?app = "demo_app\<lparr>rules := [rule_who, rule_stop, rule_echo]\<rparr>"
  have f: "find_printout demo_env demo_app ''sparql'' =
             (Some to_sparql, [Lookup DefaultPrintout ''expression_to_sparql''])"
    by (simp add: find_printout_def demo_app_def demo_env_def getattr_def lower_def lower_char_def)
  have f': "find_printout demo_env ?app ''sparql'' =
             (Some to_sparql, [Lookup DefaultPrintout ''expression_to_sparql''])"
    by (simp add: find_printout_def demo_app_def demo_env_def getattr_def lower_def lower_char_def)
  have t: "tagger demo_app (encoding_flexible_conversion demo_env ''?'') = Inl (OtherError ''tagger'')"
    "tagger demo_app (encoding_flexible_conversion demo_env (question_sanitize ''?'')) =
       Inl (OtherError ''tagger'')"
    "OtherError ''tagger'' \<noteq> TaggingError" "OtherError ''tagger'' \<noteq> StopIterationExn"
    by code_simp+
  have w: "tagger demo_app (encoding_flexible_conversion demo_env ''What'') = Inr [''What'']"
    "(2::nat) < length (rules demo_app)"
    by code_simp+
  have p: "\<forall>j<2::nat. passes [''What''] to_sparql (rules demo_app ! j)"
    by (auto simp: less_Suc_eq numeral_2_eq_2 passes_def demo_app_def rule_who_def rule_echo_def to_sparql_def)
  have r: "fails [''What''] to_sparql (rules demo_app ! 2) (OtherError ''rule'')"
    "OtherError ''rule'' \<noteq> StopIterationExn"
    by (simp_all add: fails_def demo_app_def rule_bad_def)
  have y: "tagger demo_app (encoding_flexible_conversion demo_env (question_sanitize ''Why'')) = Inr [''Why'']"
    "(1::nat) < length (rules demo_app)"
    by code_simp+
  have n: "\<forall>j<1::nat. \<exists>v. get_semantics (rules demo_app ! j) [''Why''] = Inr (None, v)"
    by (simp add: demo_app_def rule_who_def)
  have s: "fails [''Why''] to_sparql (rules demo_app ! 1) (OtherError ''printout'')"
    "OtherError ''printout'' \<noteq> StopIterationExn"
    by (simp_all add: fails_def demo_app_def rule_echo_def to_sparql_def)
  have w': "tagger ?app (encoding_flexible_conversion demo_env ''What'') = Inr [''What'']"
    "tagger ?app (encoding_flexible_conversion demo_env (question_sanitize ''What'')) = Inr [''What'']"
    "(1::nat) < length (rules ?app)"
    by code_simp+
  have p': "\<forall>j<1::nat. passes [''What''] to_sparql (rules ?app ! j)"
    "\<forall>j<1::nat. \<exists>v. get_semantics (rules ?app ! j) [''What''] = Inr (None, v)"
    by (simp_all add: passes_def rule_who_def)
  have r': "fails [''What''] to_sparql (rules ?app ! 1) StopIterationExn"
    by (simp add: fails_def rule_stop_def)
  from only_tagging_error_is_caught [OF f, of "''?''" "OtherError ''tagger''"] t
  have 1: "fst (snd (collect demo_env demo_app (get_queries ''?'' ''sparql''))) = Some (OtherError ''tagger'')"
    and 2: "fst (get_query demo_env demo_app ''?'' ''sparql'') = Inl (OtherError ''tagger'')"
    by blast+
  from only_tagging_error_is_caught [OF f, of "''What''" "OtherError ''rule''" "[''What'']" 2] w p r
  have 3: "fst (snd (collect demo_env demo_app (get_queries ''What'' ''sparql''))) = Some (OtherError ''rule'')"
    by blast
  from only_tagging_error_is_caught [OF f, of "''Why''" "OtherError ''printout''" "[''Why'']" 1] y n s
  have 4: "fst (get_query demo_env demo_app ''Why'' ''sparql'') = Inl (OtherError ''printout'')"
    by blast
  from only_tagging_error_is_caught [OF f', of "''What''" _ "[''What'']" 1] w' p' r'
  have 5: "fst (snd (collect demo_env ?app (get_queries ''What'' ''sparql''))) = None"
    and 6: "fst (get_query demo_env ?app ''What'' ''sparql'') = Inr (None, None, None)"
    by blast+
  from 1 2 3 4 5 6 show ?thesis by blast
qed

text \<open>
  A rule whose \<open>get_semantics\<close> raises \<open>StopIteration\<close>: the exception does not leave
  \<open>get_query\<close> or \<open>get_queries\<close>; the first returns the triple of \<open>None\<close>, the second
  ends as an empty sequence.
\<close>

theorem stop_iteration_does_not_propagate:
  "get_semantics rule_stop [''What''] = Inl StopIterationExn \<and>
   fst (get_query demo_env (demo_app\<lparr>rules := [rule_stop]\<rparr>) ''What'' ''sparql'') =
     Inr (None, None, None) \<and>
   fst (collect demo_env (demo_app\<lparr>rules := [rule_stop]\<rparr>) (get_queries ''What'' ''sparql'')) = [] \<and>
   fst (snd (collect demo_env (demo_app\<lparr>rules := [rule_stop]\<rparr>) (get_queries ''What'' ''sparql''))) =
     None"
  by code_simp

end
